theory Spec2Isabelle
  imports Main "HOL-Library.Stream"
begin

section \<open>Data model\<close>

text \<open>
  Values that a Python invalidation dictionary is built from: \<open>None\<close>, booleans,
  integers, strings, lists, tuples and dictionaries with string keys (in iteration
  order). \<open>PyOpaque\<close> stands for any object the JSON encoder has no rule for (a set, an
  instance of a user class); floating point numbers are not represented.
\<close>

datatype pyvalue =
    PyNone
  | PyBool bool
  | PyInt int
  | PyStr string
  | PyList "pyvalue list"
  | PyTuple "pyvalue list"
  | PyDict "(string \<times> pyvalue) list"
  | PyOpaque

text \<open>
  Exceptions as values. \<open>Conflict\<close> and \<open>TransientStoreError\<close> are what the store's
  conditional write raises, \<open>QueryError\<close> what its range scan raises, \<open>EncodingError\<close>
  is \<open>json.dumps\<close> refusing a value, \<open>DecodingError\<close> is \<open>json.loads\<close> refusing a
  text, \<open>TypeError\<close> is Python's \<open>None + 1\<close>. \<open>OutsideModel\<close> is no exception of
  Python: it is the decoder's answer for a text whose value is not among the values
  above (a float literal, a character beyond code point 255).
\<close>

datatype error =
    Conflict
  | TransientStoreError
  | QueryError
  | EncodingError
  | DecodingError
  | TypeError
  | OutsideModel

text \<open>
  The operation context: the four attributes \<open>CreateForUser\<close> reads from
  \<open>operation\<close>. The timestamp is only ever copied, so its type is left open.
\<close>

record 'ts operation =
  op_user_id :: int
  op_device_id :: int
  op_operation_id :: string
  op_timestamp :: 'ts

text \<open>
  A notification object. The two key columns are given to the constructor; every other
  attribute is \<open>None\<close> until it is assigned.
\<close>

record 'ts notification =
  user_id :: int
  notification_id :: int
  name :: "string option"
  timestamp :: "'ts option"
  sender_id :: "int option"
  sender_device_id :: "int option"
  op_id :: "string option"
  badge :: "int option"
  invalidate :: "string option"
  activity_id :: "string option"
  viewpoint_id :: "string option"
  update_seq :: "int option"
  viewed_seq :: "int option"

definition Notification :: "int \<Rightarrow> int \<Rightarrow> 'ts notification" where
  "Notification uid nid =
     \<lparr> user_id = uid, notification_id = nid, name = None, timestamp = None,
       sender_id = None, sender_device_id = None, op_id = None, badge = None,
       invalidate = None, activity_id = None, viewpoint_id = None,
       update_seq = None, viewed_seq = None \<rparr>"

text \<open>The composite primary key: partition key and sort key.\<close>

definition key :: "'ts notification \<Rightarrow> int \<times> int" where
  "key n = (user_id n, notification_id n)"

text \<open>The notification table: the committed records, in the order they were committed.\<close>

type_synonym 'ts table = "'ts notification list"


section \<open>The JSON encoder\<close>

text \<open>
  \<open>json.dumps\<close> with its default arguments (\<open>ensure_ascii\<close>, separators \<open>", "\<close> and
  \<open>": "\<close>). A character of a string is taken as the code point of the same number
  (0 to 255).
\<close>

definition hex_digit :: "nat \<Rightarrow> char" where
  "hex_digit d = (if d < 10 then char_of (48 + d) else char_of (87 + d))"

definition escape_char :: "char \<Rightarrow> string" where
  "escape_char c =
     (if c = CHR ''\"'' then [CHR 0x5C, CHR ''\"'']
      else if c = CHR 0x5C then [CHR 0x5C, CHR 0x5C]
      else if c = CHR 0x0A then [CHR 0x5C, CHR ''n'']
      else if c = CHR 0x0D then [CHR 0x5C, CHR ''r'']
      else if c = CHR 0x09 then [CHR 0x5C, CHR ''t'']
      else if c = CHR 0x08 then [CHR 0x5C, CHR ''b'']
      else if c = CHR 0x0C then [CHR 0x5C, CHR ''f'']
      else if (of_char c :: nat) < 32 \<or> 126 < (of_char c :: nat)
        then [CHR 0x5C, CHR ''u'', CHR ''0'', CHR ''0'',
              hex_digit ((of_char c :: nat) div 16), hex_digit ((of_char c :: nat) mod 16)]
      else [c])"

definition encode_string :: "string \<Rightarrow> string" where
  "encode_string s = CHR ''\"'' # concat (map escape_char s) @ [CHR ''\"'']"

fun digits :: "nat \<Rightarrow> string" where
  "digits n = (if n < 10 then [char_of (48 + n)]
               else digits (n div 10) @ [char_of (48 + n mod 10)])"

declare digits.simps [simp del]

definition encode_int :: "int \<Rightarrow> string" where
  "encode_int i = (if i < 0 then CHR ''-'' # digits (nat (- i)) else digits (nat i))"

text \<open>\<open>", ".join(chunks)\<close>\<close>

fun join :: "string list \<Rightarrow> string" where
  "join [] = []"
| "join [x] = x"
| "join (x # y # ys) = x @ '', '' @ join (y # ys)"

text \<open>Running a list of fallible computations, stopping at the first exception.\<close>

fun sequence :: "(error + 'a) list \<Rightarrow> error + 'a list" where
  "sequence [] = Inr []"
| "sequence (x # xs) =
     (case x of Inl e \<Rightarrow> Inl e
      | Inr v \<Rightarrow> (case sequence xs of Inl e \<Rightarrow> Inl e | Inr vs \<Rightarrow> Inr (v # vs)))"

fun json_dumps :: "pyvalue \<Rightarrow> error + string" where
  "json_dumps PyNone = Inr ''null''"
| "json_dumps (PyBool b) = Inr (if b then ''true'' else ''false'')"
| "json_dumps (PyInt i) = Inr (encode_int i)"
| "json_dumps (PyStr s) = Inr (encode_string s)"
| "json_dumps (PyList vs) =
     (case sequence (map json_dumps vs) of Inl e \<Rightarrow> Inl e
      | Inr chunks \<Rightarrow> Inr (''['' @ join chunks @ '']''))"
| "json_dumps (PyTuple vs) =
     (case sequence (map json_dumps vs) of Inl e \<Rightarrow> Inl e
      | Inr chunks \<Rightarrow> Inr (''['' @ join chunks @ '']''))"
| "json_dumps (PyDict kvs) =
     (case sequence (map (\<lambda>(k, v). case json_dumps v of Inl e \<Rightarrow> Inl e
                                   | Inr s \<Rightarrow> Inr (encode_string k @ '': '' @ s)) kvs) of
        Inl e \<Rightarrow> Inl e
      | Inr chunks \<Rightarrow> Inr (''{'' @ join chunks @ ''}''))"
| "json_dumps PyOpaque = Inl EncodingError"


section \<open>The JSON decoder\<close>

text \<open>
  \<open>json.loads\<close> with its default arguments, after the decoder of the Python standard
  library: white space is skipped around values and separators, a string is scanned in
  strict mode (no raw control character), a number without fraction and exponent is an
  integer, the members of an object are collected into a dictionary (a repeated key
  keeps its place and takes the later value), and text after the value is an error.
  Floats are not among the modelled values: on a float literal, \<open>NaN\<close> or \<open>Infinity\<close>
  the model answers \<open>OutsideModel\<close>, and so it does on an escape \<open>\\uXXXX\<close> beyond
  code point 255.

  The recursion of the parser is bounded by \<open>fuel\<close>; \<open>json_loads\<close> starts it with the
  length of the text, and a unit is spent only where a character has been consumed.
\<close>

definition is_ws :: "char \<Rightarrow> bool" where
  "is_ws c \<longleftrightarrow> c = CHR '' '' \<or> c = CHR 0x09 \<or> c = CHR 0x0A \<or> c = CHR 0x0D"

definition skip_ws :: "string \<Rightarrow> string" where
  "skip_ws s = dropWhile is_ws s"















section \<open>The store\<close>

text \<open>
  Modelled from the spec: \<open>DBRangeObject.RangeQuery\<close> and \<open>DBObject.Update\<close> belong to
  the object-mapping layer of the repository, which is not part of the source at hand.
  They are modelled after the store contract of the specification (section 6).

  Range scan: the records of one partition key, ordered by the sort key, ascending when
  \<open>scan_forward\<close> and descending otherwise, cut to \<open>limit\<close> records. A strongly
  consistent read sees every committed write; an eventually consistent read may miss the
  most recent ones: it sees the table without its last \<open>lag\<close> writes, where \<open>lag\<close> is
  chosen by the environment. \<open>fault\<close> says whether the store raises instead of answering.
  The arguments \<open>range_desc\<close> and \<open>col_names\<close> are \<open>None\<close> at the only call (the whole
  range, all columns) and are left out.
\<close>

definition visible :: "'ts table \<Rightarrow> nat \<Rightarrow> bool \<Rightarrow> 'ts table" where
  "visible tbl lag consistent_read =
     (if consistent_read then tbl else take (length tbl - lag) tbl)"

definition RangeQuery ::
  "bool \<Rightarrow> nat \<Rightarrow> 'ts table \<Rightarrow> int \<Rightarrow> nat option \<Rightarrow> bool \<Rightarrow> bool
     \<Rightarrow> error + 'ts notification list" where
  "RangeQuery fault lag tbl uid limit scan_forward consistent_read =
     (if fault then Inl QueryError
      else
        let ascending = sort_key notification_id
                          (filter (\<lambda>n. user_id n = uid) (visible tbl lag consistent_read));
            ordered = (if scan_forward then ascending else rev ascending)
        in Inr (case limit of None \<Rightarrow> ordered | Some k \<Rightarrow> take k ordered))"

text \<open>
  Modelled from the spec: the conditional write \<open>Update(client, expected={'notification_id': False})\<close>.
  The predicate "attribute \<open>notification_id\<close> is absent" holds exactly when the table has
  no record under the key of the record being written, since every stored record carries
  its key. The write is applied only then; otherwise it raises and the table is unchanged.
  \<open>fault\<close> says whether the store raises a transient error instead of applying the write.
\<close>

definition Update :: "bool \<Rightarrow> 'ts table \<Rightarrow> 'ts notification \<Rightarrow> error + 'ts table" where
  "Update fault tbl n =
     (if fault then Inl TransientStoreError
      else if key n \<in> set (map key tbl) then Inl Conflict
      else Inr (tbl @ [n]))"


section \<open>The notification class\<close>

text \<open>\<open>SetInvalidate\<close>: the attribute is assigned unless \<open>json.dumps\<close> raises.\<close>

definition SetInvalidate :: "'ts notification \<Rightarrow> pyvalue \<Rightarrow> error + 'ts notification" where
  "SetInvalidate n invalidate_dict =
     (case json_dumps invalidate_dict of
        Inl e \<Rightarrow> Inl e
      | Inr s \<Rightarrow> Inr (n\<lparr>invalidate := Some s\<rparr>))"


text \<open>
  \<open>_TryUpdate\<close>: every exception of the conditional write is caught and turned into
  \<open>False\<close> (the log line is not modelled). Returns the flag and the table afterwards.
\<close>

definition TryUpdate :: "bool \<Rightarrow> 'ts table \<Rightarrow> 'ts notification \<Rightarrow> bool \<times> 'ts table" where
  "TryUpdate fault tbl n =
     (case Update fault tbl n of
        Inl e \<Rightarrow> (False, tbl)
      | Inr tbl' \<Rightarrow> (True, tbl'))"

text \<open>
  \<open>TryClearBadge\<close>. \<open>now\<close> is the value of \<open>util.GetCurrentTimestamp()\<close> at the call.
\<close>

definition TryClearBadge ::
  "bool \<Rightarrow> 'ts \<Rightarrow> 'ts table \<Rightarrow> int \<Rightarrow> int \<Rightarrow> int \<Rightarrow> bool \<times> 'ts table" where
  "TryClearBadge fault now tbl uid device_id nid =
     (let n = (Notification uid nid)
                \<lparr> name := Some ''clear_badges'',
                  timestamp := Some now,
                  sender_id := Some uid,
                  sender_device_id := Some device_id,
                  badge := Some 0 \<rparr>
      in TryUpdate fault tbl n)"

text \<open>\<open>QueryLast\<close>: a descending scan of the user's range with limit 1.\<close>

definition QueryLast ::
  "bool \<Rightarrow> nat \<Rightarrow> 'ts table \<Rightarrow> int \<Rightarrow> bool \<Rightarrow> error + 'ts notification option" where
  "QueryLast fault lag tbl uid consistent_read =
     (case RangeQuery fault lag tbl uid (Some 1) False consistent_read of
        Inl e \<Rightarrow> Inl e
      | Inr notification_list \<Rightarrow>
          Inr (if length notification_list > 0 then Some (notification_list ! 0) else None))"

text \<open>
  The first statement of the loop body of \<open>CreateForUser\<close> after the query: the id of
  the candidate and the badge carried over from the last notification.
\<close>

definition carry :: "'ts notification option \<Rightarrow> int \<times> int option" where
  "carry last_notification =
     (case last_notification of
        None \<Rightarrow> (1, Some 0)
      | Some l \<Rightarrow> (notification_id l + 1, badge l))"

text \<open>
  The rest of the loop body up to the write: the candidate record is assembled.
  \<open>SetInvalidate\<close> may raise; so does \<open>badge += 1\<close> when the carried badge is \<open>None\<close>.
\<close>

definition assemble ::
  "'ts operation \<Rightarrow> int \<Rightarrow> string \<Rightarrow> pyvalue option \<Rightarrow> string option \<Rightarrow> string option
     \<Rightarrow> (int option \<times> int option) option \<Rightarrow> bool \<Rightarrow> 'ts notification option
     \<Rightarrow> error + 'ts notification" where
  "assemble operation uid nm payload activity viewpoint seq_num_pair inc_badge last_notification =
     (let (nid, carried) = carry last_notification;
          n0 = (Notification uid nid)\<lparr>name := Some nm\<rparr>
      in case (case payload of None \<Rightarrow> Inr n0 | Some d \<Rightarrow> SetInvalidate n0 d) of
           Inl e \<Rightarrow> Inl e
         | Inr n1 \<Rightarrow>
            (let n2 = n1\<lparr>activity_id := activity, viewpoint_id := viewpoint\<rparr>;
                 n3 = (case seq_num_pair of
                         None \<Rightarrow> n2
                       | Some (upd, vwd) \<Rightarrow>
                           let n' = n2\<lparr>update_seq := upd\<rparr>
                           in if vwd \<noteq> None \<and> op_user_id operation = uid
                              then n'\<lparr>viewed_seq := vwd\<rparr> else n')
             in (case (if inc_badge
                      then (case carried of None \<Rightarrow> Inl TypeError | Some b \<Rightarrow> Inr (Some (b + 1)))
                      else Inr carried) of
                  Inl e \<Rightarrow> Inl e
                | Inr b \<Rightarrow>
                    Inr (n3\<lparr> badge := b,
                             timestamp := Some (op_timestamp operation),
                             sender_id := Some (op_user_id operation),
                             sender_device_id := Some (op_device_id operation),
                             op_id := Some (op_operation_id operation) \<rparr>))))"


section \<open>The allocation loop\<close>

text \<open>
  What the environment does during one iteration of the loop. The coroutine is suspended
  only at its two I/O calls, so other writers act before the read or between the read and
  the write; all they can do to the table is attempt conditional creates of their own.
\<close>

record 'ts io =
  before_read :: "'ts notification list"
  query_fault :: bool
  read_lag :: nat
  before_write :: "'ts notification list"
  write_fault :: bool

fun others_write :: "'ts notification list \<Rightarrow> 'ts table \<Rightarrow> 'ts table" where
  "others_write [] tbl = tbl"
| "others_write (n # ns) tbl = others_write ns (snd (TryUpdate False tbl n))"

datatype 'ts outcome = Raised error | Returned "'ts notification" | Retry

definition iteration ::
  "'ts io \<Rightarrow> 'ts table \<Rightarrow> 'ts operation \<Rightarrow> int \<Rightarrow> string \<Rightarrow> pyvalue option
     \<Rightarrow> string option \<Rightarrow> string option \<Rightarrow> (int option \<times> int option) option \<Rightarrow> bool \<Rightarrow> bool
     \<Rightarrow> 'ts outcome \<times> 'ts table" where
  "iteration io tbl operation uid nm payload activity viewpoint seq_num_pair inc_badge consistent_read =
     (let tbl1 = others_write (before_read io) tbl
      in case QueryLast (query_fault io) (read_lag io) tbl1 uid consistent_read of
           Inl e \<Rightarrow> (Raised e, tbl1)
         | Inr last_notification \<Rightarrow>
             (case assemble operation uid nm payload activity viewpoint seq_num_pair inc_badge
                     last_notification of
                Inl e \<Rightarrow> (Raised e, tbl1)
              | Inr n \<Rightarrow>
                  let tbl2 = others_write (before_write io) tbl1;
                      (success, tbl3) = TryUpdate (write_fault io) tbl2 n
                  in if success then (Returned n, tbl3) else (Retry, tbl3)))"

text \<open>
  \<open>CreateForUser\<close>: \<open>while True\<close>, leaving by \<open>return\<close> or by an exception; after a
  failed write the next iteration reads consistently. The loop has no bound, so the
  function is partial: \<open>None\<close> is the call that never returns.
\<close>

partial_function (option) CreateForUser ::
  "'ts io stream \<Rightarrow> 'ts table \<Rightarrow> 'ts operation \<Rightarrow> int \<Rightarrow> string \<Rightarrow> pyvalue option
     \<Rightarrow> string option \<Rightarrow> string option \<Rightarrow> (int option \<times> int option) option \<Rightarrow> bool \<Rightarrow> bool
     \<Rightarrow> ((error + 'ts notification) \<times> 'ts table) option" where
  "CreateForUser env tbl operation uid nm payload activity viewpoint seq_num_pair inc_badge
       consistent_read =
     (case iteration (shd env) tbl operation uid nm payload activity viewpoint seq_num_pair
             inc_badge consistent_read of
        (Raised e, tbl') \<Rightarrow> Some (Inl e, tbl')
      | (Returned n, tbl') \<Rightarrow> Some (Inr n, tbl')
      | (Retry, tbl') \<Rightarrow>
          CreateForUser (stl env) tbl' operation uid nm payload activity viewpoint seq_num_pair
            inc_badge True)"


section \<open>Conditions on the environment\<close>

text \<open>The table as the read of an iteration finds it, and as its write finds it.\<close>

definition table_at_read :: "'ts io \<Rightarrow> 'ts table \<Rightarrow> 'ts table" where
  "table_at_read io tbl = others_write (before_read io) tbl"

definition table_at_write :: "'ts io \<Rightarrow> 'ts table \<Rightarrow> 'ts table" where
  "table_at_write io tbl = others_write (before_write io) (others_write (before_read io) tbl)"

text \<open>
  An iteration is undisturbed when its read is up to date, nobody writes between its read
  and its write, and the store applies its write without a transient error. It is serial
  when, in addition, nobody writes before its read and the read does not raise.
\<close>

definition undisturbed :: "'ts io \<Rightarrow> bool" where
  "undisturbed io \<longleftrightarrow> read_lag io = 0 \<and> before_write io = [] \<and> \<not> write_fault io"

definition serial :: "'ts io \<Rightarrow> bool" where
  "serial io \<longleftrightarrow> before_read io = [] \<and> \<not> query_fault io \<and> undisturbed io"

text \<open>A payload the encoder accepts (or no payload at all).\<close>

definition encodable :: "pyvalue option \<Rightarrow> bool" where
  "encodable payload =
     (case payload of
        None \<Rightarrow> True
      | Some d \<Rightarrow> (case json_dumps d of Inl e \<Rightarrow> False | Inr s \<Rightarrow> True))"


section \<open>Several callers\<close>

text \<open>The arguments of one \<open>CreateForUser\<close> call.\<close>

record 'ts request =
  r_operation :: "'ts operation"
  r_user_id :: int
  r_name :: string
  r_invalidate :: "pyvalue option"
  r_activity_id :: "string option"
  r_viewpoint_id :: "string option"
  r_seq_num_pair :: "(int option \<times> int option) option"
  r_inc_badge :: bool
  r_consistent_read :: bool

definition call ::
  "'ts io stream \<Rightarrow> 'ts table \<Rightarrow> 'ts request
     \<Rightarrow> ((error + 'ts notification) \<times> 'ts table) option" where
  "call env tbl r =
     CreateForUser env tbl (r_operation r) (r_user_id r) (r_name r) (r_invalidate r)
       (r_activity_id r) (r_viewpoint_id r) (r_seq_num_pair r) (r_inc_badge r)
       (r_consistent_read r)"

text \<open>
  Calls made one after the other, each with its own environment. The result is the list
  of the records returned by the calls that succeeded, and the table after the last
  call; it is \<open>None\<close> when one of the calls does not return.
\<close>

fun calls ::
  "('ts io stream \<times> 'ts request) list \<Rightarrow> 'ts table
     \<Rightarrow> ('ts notification list \<times> 'ts table) option" where
  "calls [] tbl = Some ([], tbl)"
| "calls ((env, r) # rest) tbl =
     (case call env tbl r of
        None \<Rightarrow> None
      | Some (Inl e, tbl') \<Rightarrow> calls rest tbl'
      | Some (Inr n, tbl') \<Rightarrow>
          (case calls rest tbl' of
             None \<Rightarrow> None
           | Some (ns, tbl'') \<Rightarrow> Some (n # ns, tbl'')))"

text \<open>
  Concurrent calls. A coroutine running \<open>CreateForUser\<close> is suspended only at its two
  I/O calls, so between two suspensions it is either about to read (with the current
  value of \<open>consistent_read\<close>), or about to write the candidate it assembled, or it has
  finished with a record or an exception.
\<close>

datatype 'ts phase =
    Reading bool
  | Writing "'ts notification"
  | Finished "error + 'ts notification"

text \<open>
  One I/O step of a call: the part of the loop body from one suspension to the next.
  \<open>fault\<close> and \<open>lag\<close> are the store's behaviour at this I/O.
\<close>

definition advance ::
  "bool \<Rightarrow> nat \<Rightarrow> 'ts table \<Rightarrow> 'ts request \<Rightarrow> 'ts phase \<Rightarrow> 'ts phase \<times> 'ts table" where
  "advance fault lag tbl r ph =
     (case ph of
        Reading consistent_read \<Rightarrow>
          (case QueryLast fault lag tbl (r_user_id r) consistent_read of
             Inl e \<Rightarrow> (Finished (Inl e), tbl)
           | Inr last_notification \<Rightarrow>
               (case assemble (r_operation r) (r_user_id r) (r_name r) (r_invalidate r)
                       (r_activity_id r) (r_viewpoint_id r) (r_seq_num_pair r) (r_inc_badge r)
                       last_notification of
                  Inl e \<Rightarrow> (Finished (Inl e), tbl)
                | Inr n \<Rightarrow> (Writing n, tbl)))
      | Writing n \<Rightarrow>
          (let (success, tbl') = TryUpdate fault tbl n
           in if success then (Finished (Inr n), tbl') else (Reading True, tbl'))
      | Finished res \<Rightarrow> (Finished res, tbl))"

text \<open>
  A schedule is the order in which the store serves the I/O calls of the callers:
  \<open>Advance i fault lag\<close> serves the pending I/O of the \<open>i\<close>-th \<open>CreateForUser\<close> call,
  \<open>ClearBadge\<close> serves a whole \<open>TryClearBadge\<close> call (it has one I/O only).
\<close>

datatype 'ts event =
    Advance nat bool nat
  | ClearBadge bool 'ts int int int

fun run ::
  "'ts event list \<Rightarrow> ('ts request \<times> 'ts phase) list \<times> 'ts table
     \<Rightarrow> ('ts request \<times> 'ts phase) list \<times> 'ts table" where
  "run [] s = s"
| "run (Advance i fault lag # evs) (cs, tbl) =
     (if i < length cs
      then let (ph, tbl') = advance fault lag tbl (fst (cs ! i)) (snd (cs ! i))
           in run evs (cs[i := (fst (cs ! i), ph)], tbl')
      else run evs (cs, tbl))"
| "run (ClearBadge fault now uid device_id nid # evs) (cs, tbl) =
     run evs (cs, snd (TryClearBadge fault now tbl uid device_id nid))"

text \<open>The calls start at their first read.\<close>

definition start :: "'ts request list \<Rightarrow> ('ts request \<times> 'ts phase) list" where
  "start rs = map (\<lambda>r. (r, Reading (r_consistent_read r))) rs"

text \<open>The records returned by the calls that have succeeded.\<close>

fun returned :: "('ts request \<times> 'ts phase) list \<Rightarrow> 'ts notification list" where
  "returned [] = []"
| "returned ((r, Finished (Inr n)) # cs) = n # returned cs"
| "returned (c # cs) = returned cs"


section \<open>Values that JSON can carry\<close>



text \<open>
  What may follow an encoded value inside an encoded text, how an encoded value begins,
  and the statement that the decoder reads an encoded value back.
\<close>

definition stops :: "string \<Rightarrow> bool" where
  "stops rest = (case rest of [] \<Rightarrow> True
                 | c # _ \<Rightarrow> c = CHR '','' \<or> c = CHR '']'' \<or> c = CHR ''}'')"




section \<open>Concrete inputs\<close>

text \<open>
  A user 7 submitting operations from device 3, a store that answers without fault,
  delay or interference, and the records the first calls commit.
\<close>

definition op1 :: "nat operation" where
  "op1 = \<lparr>op_user_id = 7, op_device_id = 3, op_operation_id = ''op-1'', op_timestamp = 100\<rparr>"

definition calm :: "nat io" where
  "calm = \<lparr>before_read = [], query_fault = False, read_lag = 0, before_write = [],
            write_fault = False\<rparr>"

definition share1 :: "nat notification" where
  "share1 = \<lparr> user_id = 7, notification_id = 1, name = Some ''share'', timestamp = Some 100,
       sender_id = Some 7, sender_device_id = Some 3, op_id = Some ''op-1'', badge = Some 1,
       invalidate = None, activity_id = None, viewpoint_id = None,
       update_seq = None, viewed_seq = None \<rparr>"

definition comment2 :: "nat notification" where
  "comment2 = \<lparr> user_id = 7, notification_id = 2, name = Some ''comment'', timestamp = Some 100,
       sender_id = Some 7, sender_device_id = Some 3, op_id = Some ''op-1'', badge = Some 2,
       invalidate = None, activity_id = None, viewpoint_id = None,
       update_seq = None, viewed_seq = None \<rparr>"

text \<open>
  A store whose eventually consistent reads miss the latest write, a store whose
  conditional writes all fail, and the candidate a stale read leads to.
\<close>

definition stale :: "nat io" where
  "stale = \<lparr>before_read = [], query_fault = False, read_lag = 1, before_write = [],
             write_fault = False\<rparr>"

definition outage :: "nat io" where
  "outage = \<lparr>before_read = [], query_fault = False, read_lag = 0, before_write = [],
              write_fault = True\<rparr>"

definition comment1 :: "nat notification" where
  "comment1 = \<lparr> user_id = 7, notification_id = 1, name = Some ''comment'', timestamp = Some 100,
       sender_id = Some 7, sender_device_id = Some 3, op_id = Some ''op-1'', badge = Some 1,
       invalidate = None, activity_id = None, viewpoint_id = None,
       update_seq = None, viewed_seq = None \<rparr>"

text \<open>
  Two requests of user 7, a third record of that user, and the badge-clearing record
  with id 5.
\<close>

definition req_share :: "nat request" where
  "req_share = \<lparr> r_operation = op1, r_user_id = 7, r_name = ''share'', r_invalidate = None,
       r_activity_id = None, r_viewpoint_id = None, r_seq_num_pair = None, r_inc_badge = True,
       r_consistent_read = False \<rparr>"

definition req_comment :: "nat request" where
  "req_comment = \<lparr> r_operation = op1, r_user_id = 7, r_name = ''comment'', r_invalidate = None,
       r_activity_id = None, r_viewpoint_id = None, r_seq_num_pair = None, r_inc_badge = True,
       r_consistent_read = False \<rparr>"

definition like3 :: "nat notification" where
  "like3 = \<lparr> user_id = 7, notification_id = 3, name = Some ''like'', timestamp = Some 100,
       sender_id = Some 7, sender_device_id = Some 3, op_id = Some ''op-1'', badge = Some 3,
       invalidate = None, activity_id = None, viewpoint_id = None,
       update_seq = None, viewed_seq = None \<rparr>"

definition clear5 :: "nat notification" where
  "clear5 = \<lparr> user_id = 7, notification_id = 5, name = Some ''clear_badges'',
       timestamp = Some 200, sender_id = Some 7, sender_device_id = Some 3, op_id = None,
       badge = Some 0, invalidate = None, activity_id = None, viewpoint_id = None,
       update_seq = None, viewed_seq = None \<rparr>"





text \<open>A notification for user 8 caused by an operation of user 7, with both sequence numbers given.\<close>

definition foreign1 :: "nat notification" where
  "foreign1 = \<lparr> user_id = 8, notification_id = 1, name = Some ''share'', timestamp = Some 100,
       sender_id = Some 7, sender_device_id = Some 3, op_id = Some ''op-1'', badge = Some 0,
       invalidate = None, activity_id = None, viewpoint_id = None,
       update_seq = Some 4, viewed_seq = None \<rparr>"


section \<open>Properties of the loop body\<close>

lemmas eval_defs = iteration_def QueryLast_def RangeQuery_def visible_def assemble_def carry_def
  TryUpdate_def Update_def Notification_def key_def SetInvalidate_def

lemma assemble_Inr:
  assumes "assemble operation uid nm payload activity viewpoint seq_num_pair inc_badge prev = Inr n"
  shows "user_id n = uid"
    and "notification_id n = fst (carry prev)"
    and "badge n = (if inc_badge then map_option (\<lambda>b. b + 1) (snd (carry prev))
                    else snd (carry prev))"
    and "inc_badge \<longrightarrow> snd (carry prev) \<noteq> None"
    and "update_seq n = (case seq_num_pair of None \<Rightarrow> None | Some (upd, vwd) \<Rightarrow> upd)"
    and "viewed_seq n = (case seq_num_pair of None \<Rightarrow> None
                         | Some (upd, vwd) \<Rightarrow> if op_user_id operation = uid then vwd else None)"
    and "name n = Some nm"
    and "activity_id n = activity"
    and "viewpoint_id n = viewpoint"
    and "timestamp n = Some (op_timestamp operation)"
    and "sender_id n = Some (op_user_id operation)"
    and "sender_device_id n = Some (op_device_id operation)"
    and "op_id n = Some (op_operation_id operation)"
  using assms
  by (auto simp: assemble_def SetInvalidate_def Notification_def Let_def
           split: prod.splits sum.splits option.splits if_splits)

lemma iteration_Returned:
  assumes "iteration io tbl operation uid nm payload activity viewpoint seq_num_pair inc_badge cr
             = (Returned n, tbl')"
  shows "\<exists>prev. QueryLast (query_fault io) (read_lag io) (others_write (before_read io) tbl) uid cr
                   = Inr prev
              \<and> assemble operation uid nm payload activity viewpoint seq_num_pair inc_badge prev = Inr n
              \<and> Update (write_fault io)
                   (others_write (before_write io) (others_write (before_read io) tbl)) n = Inr tbl'"
  using assms
  by (auto simp: iteration_def TryUpdate_def Let_def split: sum.splits prod.splits if_splits)

lemma iteration_Raised:
  assumes "iteration io tbl operation uid nm payload activity viewpoint seq_num_pair inc_badge cr
             = (Raised e, tbl')"
  shows "tbl' = others_write (before_read io) tbl"
    and "QueryLast (query_fault io) (read_lag io) (others_write (before_read io) tbl) uid cr = Inl e
         \<or> (\<exists>prev. QueryLast (query_fault io) (read_lag io) (others_write (before_read io) tbl) uid cr
                     = Inr prev
                \<and> assemble operation uid nm payload activity viewpoint seq_num_pair inc_badge prev
                     = Inl e)"
  using assms
  by (auto simp: iteration_def TryUpdate_def Let_def split: sum.splits prod.splits if_splits)

lemma iteration_Retry:
  assumes "iteration io tbl operation uid nm payload activity viewpoint seq_num_pair inc_badge cr
             = (Retry, tbl')"
  shows "tbl' = others_write (before_write io) (others_write (before_read io) tbl)"
    and "\<exists>prev n e. QueryLast (query_fault io) (read_lag io) (others_write (before_read io) tbl) uid cr
                   = Inr prev
              \<and> assemble operation uid nm payload activity viewpoint seq_num_pair inc_badge prev = Inr n
              \<and> Update (write_fault io) tbl' n = Inl e"
  using assms
  by (auto simp: iteration_def TryUpdate_def Let_def split: sum.splits prod.splits if_splits)

text \<open>
  Partial correctness of the loop: a property of the returned value follows from the three
  ways one iteration can end.
\<close>

lemma CreateForUser_induct [consumes 1, case_names Raised Returned Retry]:
  assumes "CreateForUser env tbl operation uid nm payload activity viewpoint seq_num_pair inc_badge cr
             = Some y"
    and "\<And>env tbl operation uid nm payload activity viewpoint seq_num_pair inc_badge cr e tbl'.
           iteration (shd env) tbl operation uid nm payload activity viewpoint seq_num_pair
             inc_badge cr = (Raised e, tbl')
           \<Longrightarrow> P env tbl operation uid nm payload activity viewpoint seq_num_pair inc_badge cr
                 (Inl e, tbl')"
    and "\<And>env tbl operation uid nm payload activity viewpoint seq_num_pair inc_badge cr n tbl'.
           iteration (shd env) tbl operation uid nm payload activity viewpoint seq_num_pair
             inc_badge cr = (Returned n, tbl')
           \<Longrightarrow> P env tbl operation uid nm payload activity viewpoint seq_num_pair inc_badge cr
                 (Inr n, tbl')"
    and "\<And>env tbl operation uid nm payload activity viewpoint seq_num_pair inc_badge cr tbl' y.
           iteration (shd env) tbl operation uid nm payload activity viewpoint seq_num_pair
             inc_badge cr = (Retry, tbl')
           \<Longrightarrow> P (stl env) tbl' operation uid nm payload activity viewpoint seq_num_pair
                 inc_badge True y
           \<Longrightarrow> P env tbl operation uid nm payload activity viewpoint seq_num_pair inc_badge cr y"
  shows "P env tbl operation uid nm payload activity viewpoint seq_num_pair inc_badge cr y"
proof (rule CreateForUser.raw_induct[where P = P, OF _ assms(1)], goal_cases)
  case (1 f env tbl operation uid nm payload activity viewpoint seq_num_pair inc_badge cr y)
  obtain out t where it: "iteration (shd env) tbl operation uid nm payload activity viewpoint
      seq_num_pair inc_badge cr = (out, t)"
    by (cases "iteration (shd env) tbl operation uid nm payload activity viewpoint
      seq_num_pair inc_badge cr")
  show ?case
  proof (cases out)
    case (Raised e)
    with it 1(2) assms(2)[of env tbl operation uid nm payload activity viewpoint seq_num_pair
      inc_badge cr e t]
    show ?thesis by simp
  next
    case (Returned m)
    with it 1(2) assms(3)[of env tbl operation uid nm payload activity viewpoint seq_num_pair
      inc_badge cr m t]
    show ?thesis by simp
  next
    case Retry
    with it 1(2) have "f (stl env) t operation uid nm payload activity viewpoint
      seq_num_pair inc_badge True = Some y" by simp
    from 1(1)[OF this] it Retry show ?thesis
      by (intro assms(4)[of env tbl operation uid nm payload activity viewpoint seq_num_pair
            inc_badge cr t y]) simp_all
  qed
qed

text \<open>The record a call returns is a candidate assembled in one of its iterations.\<close>

lemma CreateForUser_committed:
  assumes "CreateForUser env tbl operation uid nm payload activity viewpoint seq_num_pair inc_badge cr
             = Some (Inr n, tbl')"
  shows "\<exists>prev. assemble operation uid nm payload activity viewpoint seq_num_pair inc_badge prev = Inr n"
proof -
  have "\<forall>n tbl'. y = (Inr n, tbl') \<longrightarrow>
           (\<exists>prev. assemble operation uid nm payload activity viewpoint seq_num_pair inc_badge prev
                     = Inr n)"
    if "CreateForUser env tbl operation uid nm payload activity viewpoint seq_num_pair inc_badge cr
          = Some y" for y
    using that
  proof (induction rule: CreateForUser_induct)
    case (Returned env tbl operation uid nm payload activity viewpoint seq_num_pair inc_badge cr n tbl')
    then show ?case by (auto dest: iteration_Returned)
  qed auto
  with assms show ?thesis by blast
qed

lemma share1_created:
  "CreateForUser (sconst calm) [] op1 7 ''share'' None None None None True False
     = Some (Inr share1, [share1])"
  by (subst CreateForUser.simps) (simp add: eval_defs calm_def op1_def share1_def)

lemma foreign1_created:
  "CreateForUser (sconst calm) [] op1 8 ''share'' None None None (Some (Some 4, Some 5)) False False
     = Some (Inr foreign1, [foreign1])"
  by (subst CreateForUser.simps) (simp add: eval_defs calm_def op1_def foreign1_def)


section \<open>C4: viewed_seq\<close>

text \<open>
  Claim C4. The record committed by \<open>CreateForUser\<close> has \<open>viewed_seq\<close> set only when the
  operation's user is the target user: it is the second component of \<open>seq_num_pair\<close> when
  the two users are equal, and it is unset whenever they differ, whatever \<open>seq_num_pair\<close>
  holds.
\<close>

theorem viewed_seq_only_for_own_operation:
  assumes "CreateForUser env tbl operation uid nm payload activity viewpoint seq_num_pair inc_badge cr
             = Some (Inr n, tbl')"
  shows "(viewed_seq n \<noteq> None \<longrightarrow> op_user_id operation = uid)
       \<and> (op_user_id operation \<noteq> uid \<longrightarrow> viewed_seq n = None)
       \<and> (op_user_id operation = uid \<longrightarrow>
            viewed_seq n = (case seq_num_pair of None \<Rightarrow> None | Some (upd, vwd) \<Rightarrow> vwd))"
proof -
  from CreateForUser_committed[OF assms] obtain prev where
    "assemble operation uid nm payload activity viewpoint seq_num_pair inc_badge prev = Inr n"
    by blast
  from assemble_Inr(6)[OF this] show ?thesis
    by (auto split: option.splits prod.splits)
qed

theorem viewed_seq_only_for_own_operation_witness:
  "CreateForUser (sconst calm) [] op1 8 ''share'' None None None (Some (Some 4, Some 5)) False False
     = Some (Inr foreign1, [foreign1])
   \<and> op_user_id op1 \<noteq> 8 \<and> viewed_seq foreign1 = None"
  using viewed_seq_only_for_own_operation[OF foreign1_created] foreign1_created
  by (simp add: op1_def)


section \<open>C10: update_seq\<close>

text \<open>
  Claim C10. When \<open>seq_num_pair\<close> is given, its \<open>update_seq\<close> component is stored on the
  committed record whether or not the operation's user is the target user; when
  \<open>seq_num_pair\<close> is absent, neither \<open>update_seq\<close> nor \<open>viewed_seq\<close> is set.
\<close>

theorem update_seq_stored_unconditionally:
  assumes "CreateForUser env tbl operation uid nm payload activity viewpoint seq_num_pair inc_badge cr
             = Some (Inr n, tbl')"
  shows "(\<forall>upd vwd. seq_num_pair = Some (upd, vwd) \<longrightarrow> update_seq n = upd)
       \<and> (seq_num_pair = None \<longrightarrow> update_seq n = None \<and> viewed_seq n = None)"
proof -
  from CreateForUser_committed[OF assms] obtain prev where
    "assemble operation uid nm payload activity viewpoint seq_num_pair inc_badge prev = Inr n"
    by blast
  from assemble_Inr(5,6)[OF this] show ?thesis
    by (auto split: option.splits prod.splits)
qed

theorem update_seq_stored_unconditionally_witness:
  "CreateForUser (sconst calm) [] op1 8 ''share'' None None None (Some (Some 4, Some 5)) False False
     = Some (Inr foreign1, [foreign1])
   \<and> op_user_id op1 \<noteq> 8 \<and> update_seq foreign1 = Some 4"
  using update_seq_stored_unconditionally[OF foreign1_created] foreign1_created
  by (simp add: op1_def)


section \<open>Properties of the store\<close>

lemma QueryLast_eq:
  "QueryLast False lg tbl uid cr =
     Inr (let us = filter (\<lambda>n. user_id n = uid) (visible tbl lg cr)
          in if us = [] then None else Some (last (sort_key notification_id us)))"
proof -
  define us where "us = filter (\<lambda>n. user_id n = uid) (visible tbl lg cr)"
  define ds where "ds = rev (sort_key notification_id us)"
  have len: "length ds = length us" by (simp add: ds_def)
  show ?thesis
  proof (cases "us = []")
    case True
    then show ?thesis
      by (simp add: QueryLast_def RangeQuery_def Let_def us_def[symmetric])
  next
    case False
    then have "ds \<noteq> []" using len by auto
    then have "take (Suc 0) ds ! 0 = hd ds"
      by (cases ds) auto
    also have "hd ds = last (sort_key notification_id us)"
      by (simp add: ds_def hd_rev)
    finally have "take (Suc 0) ds ! 0 = last (sort_key notification_id us)" .
    then show ?thesis using False \<open>ds \<noteq> []\<close>
      by (simp add: QueryLast_def RangeQuery_def Let_def us_def[symmetric] ds_def[symmetric])
  qed
qed

lemma last_sort_key_max:
  assumes "x \<in> set xs"
  shows "f x \<le> f (last (sort_key f xs))"
proof -
  let ?ys = "sort_key f xs"
  have ne: "?ys \<noteq> []" using assms by (metis empty_iff list.set(1) set_sort)
  have srt: "sorted (map f ?ys)" by (rule sorted_sort_key)
  have "x \<in> set ?ys" using assms by simp
  then obtain i where i: "i < length ?ys" "?ys ! i = x" unfolding in_set_conv_nth by blast
  have "map f ?ys ! i \<le> map f ?ys ! (length ?ys - 1)"
    using srt i ne by (intro sorted_nth_mono) auto
  then show ?thesis using i ne by (simp add: last_conv_nth)
qed

lemma last_sort_key_mem: "xs \<noteq> [] \<Longrightarrow> last (sort_key f xs) \<in> set xs"
  by (metis last_in_set set_sort set_empty)

lemma QueryLast_fault: "QueryLast True lg tbl uid cr = Inl QueryError"
  by (simp add: QueryLast_def RangeQuery_def)

lemma QueryLast_Inr_no_fault: "QueryLast fault lg tbl uid cr = Inr prev \<Longrightarrow> \<not> fault"
  by (cases fault) (simp_all add: QueryLast_fault)

lemma QueryLast_Inl: "QueryLast fault lg tbl uid cr = Inl e \<Longrightarrow> e = QueryError \<and> fault"
  by (cases fault) (simp_all add: QueryLast_fault QueryLast_eq)

lemma QueryLast_None:
  assumes "QueryLast fault lg tbl uid cr = Inr None"
  shows "\<forall>r\<in>set (visible tbl lg cr). user_id r \<noteq> uid"
proof -
  from assms have "\<not> fault" by (rule QueryLast_Inr_no_fault)
  with assms have "filter (\<lambda>n. user_id n = uid) (visible tbl lg cr) = []"
    by (simp add: QueryLast_eq Let_def split: if_splits)
  then show ?thesis by (simp add: filter_empty_conv)
qed

lemma QueryLast_Some:
  assumes "QueryLast fault lg tbl uid cr = Inr (Some l)"
  shows "l \<in> set (visible tbl lg cr)" and "user_id l = uid"
    and "\<forall>r\<in>set (visible tbl lg cr). user_id r = uid \<longrightarrow> notification_id r \<le> notification_id l"
proof -
  let ?us = "filter (\<lambda>n. user_id n = uid) (visible tbl lg cr)"
  from assms have "\<not> fault" by (rule QueryLast_Inr_no_fault)
  with assms have ne: "?us \<noteq> []" and l: "l = last (sort_key notification_id ?us)"
    by (simp_all add: QueryLast_eq Let_def split: if_splits)
  from last_sort_key_mem[OF ne, of notification_id] l have "l \<in> set ?us" by simp
  then show "l \<in> set (visible tbl lg cr)" and "user_id l = uid" by simp_all
  show "\<forall>r\<in>set (visible tbl lg cr). user_id r = uid \<longrightarrow> notification_id r \<le> notification_id l"
  proof (intro ballI impI)
    fix r assume "r \<in> set (visible tbl lg cr)" "user_id r = uid"
    then have "r \<in> set ?us" by simp
    from last_sort_key_max[OF this, of notification_id] l
    show "notification_id r \<le> notification_id l" by simp
  qed
qed

lemma visible_subset: "set (visible tbl lg cr) \<subseteq> set tbl"
  by (auto simp: visible_def dest: in_set_takeD)

lemma visible_fresh: "cr \<or> lg = 0 \<Longrightarrow> visible tbl lg cr = tbl"
  by (auto simp: visible_def)

lemma TryUpdate_cases:
  assumes "TryUpdate fault tbl n = (ok, tbl')"
  shows "ok \<longleftrightarrow> \<not> fault \<and> key n \<notin> key ` set tbl"
    and "tbl' = (if ok then tbl @ [n] else tbl)"
  using assms by (auto simp: TryUpdate_def Update_def split: if_splits)

lemma Update_Inr: "Update fault tbl n = Inr tbl' \<longleftrightarrow> \<not> fault \<and> key n \<notin> key ` set tbl \<and> tbl' = tbl @ [n]"
  by (auto simp: Update_def)

lemma Update_Inl: "Update fault tbl n = Inl e \<longleftrightarrow>
    (fault \<and> e = TransientStoreError) \<or> (\<not> fault \<and> key n \<in> key ` set tbl \<and> e = Conflict)"
  by (auto simp: Update_def)

lemma others_write_extends: "\<exists>added. others_write ns tbl = tbl @ added"
proof (induction ns arbitrary: tbl)
  case Nil
  then show ?case by simp
next
  case (Cons n ns)
  obtain ok t where t: "TryUpdate False tbl n = (ok, t)" by (cases "TryUpdate False tbl n")
  from TryUpdate_cases(2)[OF t] obtain a where "t = tbl @ a" by (cases ok) auto
  moreover from Cons.IH[of t] obtain b where "others_write ns t = t @ b" by blast
  ultimately show ?case using t by simp
qed

lemma others_write_distinct:
  "distinct (map key tbl) \<Longrightarrow> distinct (map key (others_write ns tbl))"
proof (induction ns arbitrary: tbl)
  case Nil
  then show ?case by simp
next
  case (Cons n ns)
  obtain ok t where t: "TryUpdate False tbl n = (ok, t)" by (cases "TryUpdate False tbl n")
  from TryUpdate_cases[OF t] Cons.prems have "distinct (map key t)" by (cases ok) auto
  from Cons.IH[OF this] t show ?case by simp
qed

text \<open>An undisturbed iteration does not end in a retry: the id after the highest one is free.\<close>

lemma undisturbed_no_retry:
  assumes "undisturbed io"
  shows "fst (iteration io tbl operation uid nm payload activity viewpoint seq_num_pair inc_badge cr)
           \<noteq> Retry"
proof
  assume "fst (iteration io tbl operation uid nm payload activity viewpoint seq_num_pair inc_badge cr)
            = Retry"
  then obtain t where it: "iteration io tbl operation uid nm payload activity viewpoint seq_num_pair
      inc_badge cr = (Retry, t)"
    by (cases "iteration io tbl operation uid nm payload activity viewpoint seq_num_pair inc_badge cr")
       auto
  let ?t1 = "others_write (before_read io) tbl"
  from iteration_Retry[OF it] assms obtain prev n e where
    t: "t = ?t1" and
    q: "QueryLast (query_fault io) (read_lag io) ?t1 uid cr = Inr prev" and
    a: "assemble operation uid nm payload activity viewpoint seq_num_pair inc_badge prev = Inr n" and
    u: "Update (write_fault io) t n = Inl e"
    by (auto simp: undisturbed_def)
  from u assms t have "key n \<in> key ` set ?t1" by (auto simp: Update_Inl undisturbed_def)
  then obtain m where m: "m \<in> set ?t1" "key m = key n" by auto
  have vis: "visible ?t1 (read_lag io) cr = ?t1"
    using assms by (intro visible_fresh) (simp add: undisturbed_def)
  from m assemble_Inr(1,2)[OF a] have mu: "user_id m = uid" "notification_id m = fst (carry prev)"
    by (auto simp: key_def)
  show False
  proof (cases prev)
    case None
    with QueryLast_None[of "query_fault io" "read_lag io" ?t1 uid cr] q vis m(1) mu(1)
    show False by auto
  next
    case (Some l)
    with QueryLast_Some(3)[of "query_fault io" "read_lag io" ?t1 uid cr l] q vis m(1) mu
    show False by (auto simp: carry_def)
  qed
qed


section \<open>Properties of the loop\<close>

lemma sequence_Inl: "sequence xs = Inl e \<Longrightarrow> Inl e \<in> set xs"
  by (induction xs) (auto split: sum.splits)

lemma json_dumps_Inl: "json_dumps v = Inl e \<Longrightarrow> e = EncodingError"
proof (induction v arbitrary: e)
  case (PyList vs)
  from PyList.prems have "sequence (map json_dumps vs) = Inl e" by (simp split: sum.splits)
  from sequence_Inl[OF this] PyList.IH show ?case by auto
next
  case (PyTuple vs)
  from PyTuple.prems have "sequence (map json_dumps vs) = Inl e" by (simp split: sum.splits)
  from sequence_Inl[OF this] PyTuple.IH show ?case by auto
next
  case (PyDict kvs)
  from PyDict.prems have "sequence (map (\<lambda>(k, v). case json_dumps v of Inl e \<Rightarrow> Inl e
      | Inr s \<Rightarrow> Inr (encode_string k @ '': '' @ s)) kvs) = Inl e"
    by (simp split: sum.splits)
  from sequence_Inl[OF this] obtain k v where kv: "(k, v) \<in> set kvs" "json_dumps v = Inl e"
    by (auto split: sum.splits)
  from kv(1) have "v \<in> Basic_BNFs.snds (k, v)" by simp
  from PyDict.IH[OF kv(1) this kv(2)] show ?case .
qed auto

lemma assemble_Inl:
  assumes "assemble operation uid nm payload activity viewpoint seq_num_pair inc_badge prev = Inl e"
  shows "(e = EncodingError \<and> \<not> encodable payload)
       \<or> (e = TypeError \<and> inc_badge \<and> snd (carry prev) = None)"
proof -
  obtain nid carried where c: "carry prev = (nid, carried)" by (cases "carry prev")
  from assms show ?thesis
    by (auto simp: assemble_def SetInvalidate_def Let_def c encodable_def dest: json_dumps_Inl
             split: sum.splits option.splits if_splits)
qed

lemma iteration_extends:
  "\<exists>added. snd (iteration io tbl operation uid nm payload activity viewpoint seq_num_pair
                   inc_badge cr) = tbl @ added"
proof -
  obtain a where a: "others_write (before_read io) tbl = tbl @ a"
    using others_write_extends by blast
  obtain b where b: "others_write (before_write io) (tbl @ a) = (tbl @ a) @ b"
    using others_write_extends by blast
  show ?thesis
    by (auto simp: iteration_def Let_def a b TryUpdate_def Update_def
             split: sum.splits prod.splits if_splits)
qed

lemma CreateForUser_result:
  assumes "CreateForUser env tbl operation uid nm payload activity viewpoint seq_num_pair inc_badge cr
             = Some (r, tbl')"
  shows "\<exists>added. tbl' = tbl @ added"
    and "\<forall>n. r = Inr n \<longrightarrow> user_id n = uid \<and> n \<in> set tbl' \<and> key n \<notin> key ` set tbl"
    and "\<forall>e. r = Inl e \<longrightarrow> e = QueryError \<or> e = EncodingError \<or> e = TypeError"
proof -
  have "(\<exists>added. snd y = tbl @ added)
      \<and> (\<forall>n. fst y = Inr n \<longrightarrow> user_id n = uid \<and> n \<in> set (snd y) \<and> key n \<notin> key ` set tbl)
      \<and> (\<forall>e. fst y = Inl e \<longrightarrow> e = QueryError \<or> e = EncodingError \<or> e = TypeError)"
    if "CreateForUser env tbl operation uid nm payload activity viewpoint seq_num_pair inc_badge cr
          = Some y" for y
    using that
  proof (induction rule: CreateForUser_induct)
    case (Raised env tbl operation uid nm payload activity viewpoint seq_num_pair inc_badge cr e tbl')
    from iteration_Raised[OF Raised] others_write_extends[of "before_read (shd env)" tbl]
    show ?case by (auto dest: QueryLast_Inl assemble_Inl)
  next
    case (Returned env tbl operation uid nm payload activity viewpoint seq_num_pair inc_badge cr n tbl')
    obtain a where a: "others_write (before_read (shd env)) tbl = tbl @ a"
      using others_write_extends by blast
    obtain b where b: "others_write (before_write (shd env)) (tbl @ a) = (tbl @ a) @ b"
      using others_write_extends by blast
    from iteration_Returned[OF Returned] a b show ?case
      by (auto simp: Update_Inr dest: assemble_Inr(1))
  next
    case (Retry env tbl operation uid nm payload activity viewpoint seq_num_pair inc_badge cr tbl' y)
    from iteration_extends[of "shd env" tbl operation uid nm payload activity viewpoint
        seq_num_pair inc_badge cr] Retry(1)
    obtain a where "tbl' = tbl @ a" by auto
    with Retry(2) show ?case by auto
  qed
  from this[OF assms] show "\<exists>added. tbl' = tbl @ added"
    and "\<forall>n. r = Inr n \<longrightarrow> user_id n = uid \<and> n \<in> set tbl' \<and> key n \<notin> key ` set tbl"
    and "\<forall>e. r = Inl e \<longrightarrow> e = QueryError \<or> e = EncodingError \<or> e = TypeError"
    by simp_all
qed

lemma CreateForUser_returns:
  assumes "undisturbed (env !! k)"
  shows "\<exists>y. CreateForUser env tbl operation uid nm payload activity viewpoint seq_num_pair
                inc_badge cr = Some y"
  using assms
proof (induction k arbitrary: env tbl cr)
  case 0
  then have "fst (iteration (shd env) tbl operation uid nm payload activity viewpoint seq_num_pair
      inc_badge cr) \<noteq> Retry"
    by (intro undisturbed_no_retry) simp
  then show ?case
    by (subst CreateForUser.simps) (auto split: prod.splits outcome.splits)
next
  case (Suc k)
  then have "undisturbed (stl env !! k)" by simp
  from Suc.IH[OF this] show ?case
    by (subst CreateForUser.simps) (auto split: prod.splits outcome.splits)
qed

lemma CreateForUser_needs_a_write:
  assumes "CreateForUser env tbl operation uid nm payload activity viewpoint seq_num_pair inc_badge cr
             = Some y"
  shows "(\<exists>k. \<not> write_fault (env !! k)) \<or> (\<exists>e. fst y = Inl e)"
  using assms
proof (induction rule: CreateForUser_induct)
  case (Returned env tbl operation uid nm payload activity viewpoint seq_num_pair inc_badge cr n tbl')
  from iteration_Returned[OF Returned] have "\<not> write_fault (env !! 0)"
    by (auto simp: Update_Inr)
  then show ?case by blast
next
  case (Retry env tbl operation uid nm payload activity viewpoint seq_num_pair inc_badge cr tbl' y)
  then show ?case by (metis snth.simps(2))
qed auto

lemma CreateForUser_raises_needs:
  assumes "CreateForUser env tbl operation uid nm payload activity viewpoint seq_num_pair inc_badge cr
             = Some y"
  shows "\<forall>e. fst y = Inl e \<longrightarrow>
           (\<exists>k. query_fault (env !! k)) \<or> \<not> encodable payload \<or> inc_badge"
  using assms
proof (induction rule: CreateForUser_induct)
  case (Raised env tbl operation uid nm payload activity viewpoint seq_num_pair inc_badge cr e tbl')
  from iteration_Raised(2)[OF Raised] show ?case
  proof
    assume "QueryLast (query_fault (shd env)) (read_lag (shd env))
              (others_write (before_read (shd env)) tbl) uid cr = Inl e"
    from QueryLast_Inl[OF this] have "query_fault (env !! 0)" by simp
    then show ?thesis by blast
  next
    assume "\<exists>prev. QueryLast (query_fault (shd env)) (read_lag (shd env))
              (others_write (before_read (shd env)) tbl) uid cr = Inr prev \<and>
              assemble operation uid nm payload activity viewpoint seq_num_pair inc_badge prev = Inl e"
    then show ?thesis by (auto dest: assemble_Inl)
  qed
next
  case (Retry env tbl operation uid nm payload activity viewpoint seq_num_pair inc_badge cr tbl' y)
  then show ?case by (metis snth.simps(2))
qed auto


lemma CreateForUser_committed_from:
  assumes "CreateForUser env tbl operation uid nm payload activity viewpoint seq_num_pair inc_badge cr
             = Some (Inr n, tbl')"
  shows "\<exists>prev. (prev = None \<or> (\<exists>l\<in>set tbl'. prev = Some l \<and> user_id l = uid))
              \<and> assemble operation uid nm payload activity viewpoint seq_num_pair inc_badge prev
                  = Inr n"
proof -
  have "\<forall>n. fst y = Inr n \<longrightarrow>
           (\<exists>prev. (prev = None \<or> (\<exists>l\<in>set (snd y). prev = Some l \<and> user_id l = uid))
              \<and> assemble operation uid nm payload activity viewpoint seq_num_pair inc_badge prev
                  = Inr n)"
    if "CreateForUser env tbl operation uid nm payload activity viewpoint seq_num_pair inc_badge cr
          = Some y" for y
    using that
  proof (induction rule: CreateForUser_induct)
    case (Returned env tbl operation uid nm payload activity viewpoint seq_num_pair inc_badge cr n tbl')
    let ?t1 = "others_write (before_read (shd env)) tbl"
    from iteration_Returned[OF Returned] obtain prev where
      q: "QueryLast (query_fault (shd env)) (read_lag (shd env)) ?t1 uid cr = Inr prev" and
      a: "assemble operation uid nm payload activity viewpoint seq_num_pair inc_badge prev = Inr n" and
      u: "Update (write_fault (shd env)) (others_write (before_write (shd env)) ?t1) n = Inr tbl'"
      by blast
    obtain b where b: "others_write (before_write (shd env)) ?t1 = ?t1 @ b"
      using others_write_extends by blast
    from u b have t': "set ?t1 \<subseteq> set tbl'" by (auto simp: Update_Inr)
    have "prev = None \<or> (\<exists>l\<in>set tbl'. prev = Some l \<and> user_id l = uid)"
    proof (cases prev)
      case (Some l)
      from QueryLast_Some(1,2)[OF q[unfolded Some]] visible_subset t' Some
      show ?thesis by blast
    qed simp
    with a show ?case by auto
  qed auto
  from this[OF assms] show ?thesis by simp
qed

lemma assemble_succeeds:
  assumes "encodable payload" and "inc_badge \<longrightarrow> snd (carry prev) \<noteq> None"
  shows "\<exists>n. assemble operation uid nm payload activity viewpoint seq_num_pair inc_badge prev = Inr n"
proof -
  obtain nid carried where c: "carry prev = (nid, carried)" by (cases "carry prev")
  from assms show ?thesis
    by (auto simp: assemble_def SetInvalidate_def Let_def c encodable_def
             split: sum.splits option.splits if_splits)
qed

lemma serial_iteration:
  assumes "serial io"
      and "QueryLast False 0 tbl uid cr = Inr prev"
      and "assemble operation uid nm payload activity viewpoint seq_num_pair inc_badge prev = Inr n"
  shows "iteration io tbl operation uid nm payload activity viewpoint seq_num_pair inc_badge cr
           = (Returned n, tbl @ [n])"
proof -
  from assms(1) have u: "undisturbed io" by (simp add: serial_def)
  from undisturbed_no_retry[OF u, of tbl operation uid nm payload activity viewpoint
      seq_num_pair inc_badge cr] assms
  show ?thesis
    by (auto simp: iteration_def serial_def undisturbed_def Let_def TryUpdate_def Update_def
             split: if_splits)
qed

lemma serial_call:
  assumes "serial (shd env)"
      and "QueryLast False 0 tbl uid cr = Inr prev"
      and "assemble operation uid nm payload activity viewpoint seq_num_pair inc_badge prev = Inr n"
  shows "CreateForUser env tbl operation uid nm payload activity viewpoint seq_num_pair inc_badge cr
           = Some (Inr n, tbl @ [n])"
  by (subst CreateForUser.simps) (simp add: serial_iteration[OF assms])

lemma QueryLast_empty_partition:
  assumes "\<forall>r\<in>set tbl. user_id r \<noteq> uid"
  shows "QueryLast False lg tbl uid cr = Inr None"
proof -
  from assms visible_subset[of tbl lg cr]
  have "filter (\<lambda>n. user_id n = uid) (visible tbl lg cr) = []"
    by (auto simp: filter_empty_conv)
  then show ?thesis by (simp add: QueryLast_eq)
qed

lemma QueryLast_after_first:
  assumes "\<forall>r\<in>set tbl. user_id r \<noteq> uid" and "user_id n = uid"
  shows "QueryLast False 0 (tbl @ [n]) uid cr = Inr (Some n)"
proof -
  from assms have "filter (\<lambda>r. user_id r = uid) (tbl @ [n]) = [n]"
    by (auto simp: filter_empty_conv)
  then show ?thesis by (simp add: QueryLast_eq visible_fresh)
qed

lemma two_calls_from_empty:
  assumes empty: "\<forall>r\<in>set tbl. user_id r \<noteq> uid"
      and "serial (shd enva)" and "serial (shd envb)"
      and "encodable payloada" and "encodable payloadb"
  shows "\<exists>na nb.
           CreateForUser enva tbl opa uid nma payloada acta vpa seqa True cra
             = Some (Inr na, tbl @ [na])
         \<and> notification_id na = 1 \<and> badge na = Some 1
         \<and> CreateForUser envb (tbl @ [na]) opb uid nmb payloadb actb vpb seqb True crb
             = Some (Inr nb, tbl @ [na, nb])
         \<and> notification_id nb = 2 \<and> badge nb = Some 2"
proof -
  have qa: "QueryLast False 0 tbl uid cra = Inr None"
    using empty by (rule QueryLast_empty_partition)
  have "\<exists>n. assemble opa uid nma payloada acta vpa seqa True None = Inr n"
    using assms(4) by (rule assemble_succeeds) (simp add: carry_def)
  then obtain na where na: "assemble opa uid nma payloada acta vpa seqa True None = Inr na" ..
  from assemble_Inr(1,2,3)[OF na] have fa: "user_id na = uid" "notification_id na = 1"
      "badge na = Some 1"
    by (simp_all add: carry_def)
  have qb: "QueryLast False 0 (tbl @ [na]) uid crb = Inr (Some na)"
    using empty fa(1) by (rule QueryLast_after_first)
  have "\<exists>n. assemble opb uid nmb payloadb actb vpb seqb True (Some na) = Inr n"
    using assms(5) by (rule assemble_succeeds) (simp add: carry_def fa)
  then obtain nb where nb: "assemble opb uid nmb payloadb actb vpb seqb True (Some na) = Inr nb" ..
  from assemble_Inr(2,3)[OF nb] fa have fb: "notification_id nb = 2" "badge nb = Some 2"
    by (simp_all add: carry_def)
  from serial_call[OF assms(2) qa na] serial_call[OF assms(3) qb nb] fa fb
  show ?thesis by auto
qed


lemma comment2_created:
  "CreateForUser (sconst calm) [share1] op1 7 ''comment'' None None None None True False
     = Some (Inr comment2, [share1, comment2])"
  by (subst CreateForUser.simps)
     (simp add: eval_defs calm_def op1_def share1_def comment2_def)

lemma comment2_created_strong:
  "CreateForUser (sconst stale) [share1] op1 7 ''comment'' None None None None True True
     = Some (Inr comment2, [share1, comment2])"
  by (subst CreateForUser.simps)
     (simp add: eval_defs stale_def op1_def share1_def comment2_def)

section \<open>C2: the next id and the carried badge\<close>




section \<open>C3: the badge of the committed record\<close>

text \<open>
  Claim C3. The record committed by \<open>CreateForUser\<close> carries the badge of the last
  notification the committing iteration read (0 when there was none), plus 1 when
  \<open>inc_badge\<close> is set and unchanged otherwise. In particular, from a table with no record
  of the user, two successive calls with \<open>inc_badge\<close>, each served by the store without
  fault, delay or interference, commit a record with id 1 and badge 1 and then a record
  with id 2 and badge 2.
\<close>

theorem badge_of_committed_record:
  "(\<forall>n tbl'.
      CreateForUser env tbl operation uid nm payload activity viewpoint seq_num_pair inc_badge cr
        = Some (Inr n, tbl') \<longrightarrow>
      (\<exists>prev. (prev = None \<or> (\<exists>l\<in>set tbl'. prev = Some l \<and> user_id l = uid))
         \<and> notification_id n = fst (carry prev)
         \<and> badge n = (if inc_badge then map_option (\<lambda>b. b + 1) (snd (carry prev))
                       else snd (carry prev))
         \<and> (inc_badge \<longrightarrow> badge n \<noteq> None)))
   \<and> ((\<forall>r\<in>set tbl. user_id r \<noteq> uid) \<and> serial (shd enva) \<and> serial (shd envb)
        \<and> encodable payloada \<and> encodable payloadb \<longrightarrow>
      (\<exists>na nb.
           CreateForUser enva tbl opa uid nma payloada acta vpa seqa True cra
             = Some (Inr na, tbl @ [na])
         \<and> notification_id na = 1 \<and> badge na = Some 1
         \<and> CreateForUser envb (tbl @ [na]) opb uid nmb payloadb actb vpb seqb True crb
             = Some (Inr nb, tbl @ [na, nb])
         \<and> notification_id nb = 2 \<and> badge nb = Some 2))"
proof (intro conjI allI impI)
  fix n tbl'
  assume "CreateForUser env tbl operation uid nm payload activity viewpoint seq_num_pair inc_badge cr
        = Some (Inr n, tbl')"
  from CreateForUser_committed_from[OF this] obtain prev where
    p: "prev = None \<or> (\<exists>l\<in>set tbl'. prev = Some l \<and> user_id l = uid)" and
    a: "assemble operation uid nm payload activity viewpoint seq_num_pair inc_badge prev = Inr n"
    by blast
  from assemble_Inr(2,3,4)[OF a] p
  show "\<exists>prev. (prev = None \<or> (\<exists>l\<in>set tbl'. prev = Some l \<and> user_id l = uid))
         \<and> notification_id n = fst (carry prev)
         \<and> badge n = (if inc_badge then map_option (\<lambda>b. b + 1) (snd (carry prev))
                       else snd (carry prev))
         \<and> (inc_badge \<longrightarrow> badge n \<noteq> None)"
    by (intro exI[of _ prev]) auto
next
  assume "(\<forall>r\<in>set tbl. user_id r \<noteq> uid) \<and> serial (shd enva) \<and> serial (shd envb)
        \<and> encodable payloada \<and> encodable payloadb"
  then show "\<exists>na nb.
           CreateForUser enva tbl opa uid nma payloada acta vpa seqa True cra
             = Some (Inr na, tbl @ [na])
         \<and> notification_id na = 1 \<and> badge na = Some 1
         \<and> CreateForUser envb (tbl @ [na]) opb uid nmb payloadb actb vpb seqb True crb
             = Some (Inr nb, tbl @ [na, nb])
         \<and> notification_id nb = 2 \<and> badge nb = Some 2"
    by (intro two_calls_from_empty) simp_all
qed

theorem badge_of_committed_record_witness:
  "7 \<notin> user_id ` set ([] :: nat table) \<and> serial (shd (sconst calm))
   \<and> encodable None
   \<and> CreateForUser (sconst calm) [] op1 7 ''share'' None None None None True False
       = Some (Inr share1, [share1])
   \<and> notification_id share1 = 1 \<and> badge share1 = Some 1
   \<and> CreateForUser (sconst calm) [share1] op1 7 ''comment'' None None None None True False
       = Some (Inr comment2, [share1, comment2])
   \<and> notification_id comment2 = 2 \<and> badge comment2 = Some 2"
proof -
  have h: "(\<forall>r\<in>set ([] :: nat table). user_id r \<noteq> 7) \<and> serial (shd (sconst calm))
      \<and> serial (shd (sconst calm)) \<and> encodable None \<and> encodable None"
    by (simp add: serial_def undisturbed_def calm_def encodable_def)
  from badge_of_committed_record[of "sconst calm" "[]" op1 7 "''share''" None None None
      None True False "sconst calm" "sconst calm" None None op1 "''share''" None None None False
      op1 "''comment''" None None None False] h
  have "\<exists>na nb.
           CreateForUser (sconst calm) [] op1 7 ''share'' None None None None True False
             = Some (Inr na, [] @ [na])
         \<and> notification_id na = 1 \<and> badge na = Some 1
         \<and> CreateForUser (sconst calm) ([] @ [na]) op1 7 ''comment'' None None None None True False
             = Some (Inr nb, [] @ [na, nb])
         \<and> notification_id nb = 2 \<and> badge nb = Some 2"
    by blast
  then show ?thesis
    using h share1_created comment2_created by auto
qed

section \<open>C8: a failed write is retried with a consistent read\<close>

text \<open>
  Claim C8. When the conditional write of an iteration raises, whatever the error (a
  conflict on the candidate's key or a transient store error), \<open>_TryUpdate\<close> turns it into
  \<open>False\<close> and leaves the table as it was, the iteration ends in a retry, and the call
  continues from the query step with \<open>consistent_read\<close> set. Neither error ever reaches
  the caller of \<open>CreateForUser\<close>.
\<close>

theorem failed_write_retries_with_strong_read:
  assumes "QueryLast (query_fault (shd env)) (read_lag (shd env)) (table_at_read (shd env) tbl)
             uid cr = Inr prev"
      and "assemble operation uid nm payload activity viewpoint seq_num_pair inc_badge prev = Inr n"
      and "Update (write_fault (shd env)) (table_at_write (shd env) tbl) n = Inl e"
  shows "(e = Conflict \<or> e = TransientStoreError)
       \<and> TryUpdate (write_fault (shd env)) (table_at_write (shd env) tbl) n
           = (False, table_at_write (shd env) tbl)
       \<and> iteration (shd env) tbl operation uid nm payload activity viewpoint seq_num_pair
           inc_badge cr = (Retry, table_at_write (shd env) tbl)
       \<and> CreateForUser env tbl operation uid nm payload activity viewpoint seq_num_pair
           inc_badge cr
         = CreateForUser (stl env) (table_at_write (shd env) tbl) operation uid nm payload
             activity viewpoint seq_num_pair inc_badge True
       \<and> (\<forall>e' t. CreateForUser env tbl operation uid nm payload activity viewpoint seq_num_pair
                    inc_badge cr = Some (Inl e', t)
                  \<longrightarrow> e' \<noteq> Conflict \<and> e' \<noteq> TransientStoreError)"
proof -
  have e: "e = Conflict \<or> e = TransientStoreError"
    using assms(3) by (auto simp: Update_Inl)
  have t: "TryUpdate (write_fault (shd env)) (table_at_write (shd env) tbl) n
           = (False, table_at_write (shd env) tbl)"
    using assms(3) by (simp add: TryUpdate_def)
  have i: "iteration (shd env) tbl operation uid nm payload activity viewpoint seq_num_pair
           inc_badge cr = (Retry, table_at_write (shd env) tbl)"
    using assms(1,2) t
    by (simp add: iteration_def Let_def table_at_read_def table_at_write_def)
  have c: "CreateForUser env tbl operation uid nm payload activity viewpoint seq_num_pair
           inc_badge cr
         = CreateForUser (stl env) (table_at_write (shd env) tbl) operation uid nm payload
             activity viewpoint seq_num_pair inc_badge True"
    by (subst CreateForUser.simps) (simp add: i)
  have r: "\<forall>e' t. CreateForUser env tbl operation uid nm payload activity viewpoint seq_num_pair
                    inc_badge cr = Some (Inl e', t)
                  \<longrightarrow> e' \<noteq> Conflict \<and> e' \<noteq> TransientStoreError"
    using CreateForUser_result(3) by blast
  from e t i c r show ?thesis by blast
qed

theorem failed_write_retries_with_strong_read_witness:
  "QueryLast (query_fault (shd (sconst stale))) (read_lag (shd (sconst stale)))
       (table_at_read (shd (sconst stale)) [share1]) 7 False = Inr None
   \<and> assemble op1 7 ''comment'' None None None None True None = Inr comment1
   \<and> Update (write_fault (shd (sconst stale))) (table_at_write (shd (sconst stale)) [share1])
       comment1 = Inl Conflict
   \<and> CreateForUser (sconst stale) [share1] op1 7 ''comment'' None None None None True False
     = CreateForUser (sconst stale) [share1] op1 7 ''comment'' None None None None True True
   \<and> CreateForUser (sconst stale) [share1] op1 7 ''comment'' None None None None True False
     = Some (Inr comment2, [share1, comment2])"
proof -
  have q: "QueryLast (query_fault (shd (sconst stale))) (read_lag (shd (sconst stale)))
       (table_at_read (shd (sconst stale)) [share1]) 7 False = Inr None"
    by (simp add: eval_defs stale_def table_at_read_def)
  have a: "assemble op1 7 ''comment'' None None None None True None = Inr comment1"
    by (simp add: eval_defs op1_def comment1_def)
  have u: "Update (write_fault (shd (sconst stale))) (table_at_write (shd (sconst stale)) [share1])
       comment1 = Inl Conflict"
    by (simp add: eval_defs stale_def table_at_write_def comment1_def share1_def)
  have t: "table_at_write (shd (sconst stale)) [share1] = [share1]"
    by (simp add: table_at_write_def stale_def)
  from failed_write_retries_with_strong_read[OF q a u] q a u t comment2_created_strong
  show ?thesis by simp
qed

section \<open>C9: returning\<close>

text \<open>
  Claim C9 says that every call eventually commits an id and returns the record. The loop
  has no bound, and a store whose conditional writes all fail keeps it retrying for
  ever: on that store the call does not return.
\<close>

theorem CreateForUser_outage_never_returns:
  "CreateForUser (sconst outage) [] op1 7 ''share'' None None None None False False = None"
proof (rule ccontr)
  assume "CreateForUser (sconst outage) [] op1 7 ''share'' None None None None False False \<noteq> None"
  then obtain y where y: "CreateForUser (sconst outage) [] op1 7 ''share'' None None None None
      False False = Some y" by auto
  from CreateForUser_needs_a_write[OF y] CreateForUser_raises_needs[OF y]
  show False by (auto simp: outage_def encodable_def)
qed

text \<open>
  Claim C9, amended. A call that returns either returns the record it committed (a record
  of the user, in the table, under a key that was free when the call began) or propagates
  an error of the query, of the encoding or of the badge increment; no other value is
  returned. The call returns as soon as one of its iterations is undisturbed. While every
  conditional write fails, it commits nothing.
\<close>

theorem CreateForUser_returns_record_or_raises:
  "(\<forall>r tbl'.
      CreateForUser env tbl operation uid nm payload activity viewpoint seq_num_pair inc_badge cr
        = Some (r, tbl') \<longrightarrow>
      (\<exists>n. r = Inr n \<and> user_id n = uid \<and> n \<in> set tbl' \<and> key n \<notin> key ` set tbl)
      \<or> (\<exists>e. r = Inl e \<and> (e = QueryError \<or> e = EncodingError \<or> e = TypeError)))
   \<and> ((\<exists>k. undisturbed (env !! k)) \<longrightarrow>
        CreateForUser env tbl operation uid nm payload activity viewpoint seq_num_pair inc_badge cr
          \<noteq> None)
   \<and> ((\<forall>k. write_fault (env !! k)) \<longrightarrow>
        (\<forall>n tbl'. CreateForUser env tbl operation uid nm payload activity viewpoint seq_num_pair
                     inc_badge cr \<noteq> Some (Inr n, tbl')))"
proof (intro conjI allI impI)
  fix r tbl'
  assume c: "CreateForUser env tbl operation uid nm payload activity viewpoint seq_num_pair
      inc_badge cr = Some (r, tbl')"
  from CreateForUser_result(2,3)[OF c]
  show "(\<exists>n. r = Inr n \<and> user_id n = uid \<and> n \<in> set tbl' \<and> key n \<notin> key ` set tbl)
      \<or> (\<exists>e. r = Inl e \<and> (e = QueryError \<or> e = EncodingError \<or> e = TypeError))"
    by (cases r) auto
next
  assume "\<exists>k. undisturbed (env !! k)"
  then obtain k where "undisturbed (env !! k)" ..
  from CreateForUser_returns[OF this]
  show "CreateForUser env tbl operation uid nm payload activity viewpoint seq_num_pair inc_badge cr
          \<noteq> None" by (metis option.distinct(1))
next
  fix n tbl'
  assume w: "\<forall>k. write_fault (env !! k)"
  show "CreateForUser env tbl operation uid nm payload activity viewpoint seq_num_pair
                     inc_badge cr \<noteq> Some (Inr n, tbl')"
  proof
    assume "CreateForUser env tbl operation uid nm payload activity viewpoint seq_num_pair
                     inc_badge cr = Some (Inr n, tbl')"
    from CreateForUser_needs_a_write[OF this] w show False by simp
  qed
qed

theorem CreateForUser_returns_record_or_raises_witness:
  "undisturbed (sconst calm !! 0)
   \<and> CreateForUser (sconst calm) [] op1 7 ''share'' None None None None True False
       = Some (Inr share1, [share1])
   \<and> user_id share1 = 7 \<and> share1 \<in> set [share1] \<and> key share1 \<notin> key ` set []
   \<and> (\<forall>k. write_fault (sconst outage !! k))
   \<and> (\<forall>n tbl'. CreateForUser (sconst outage) [] op1 7 ''share'' None None None None True False
                  \<noteq> Some (Inr n, tbl'))"
proof -
  have u: "undisturbed (sconst calm !! 0)" by (simp add: undisturbed_def calm_def)
  have w: "\<forall>k. write_fault (sconst outage !! k)" by (simp add: outage_def)
  from CreateForUser_returns_record_or_raises[of "sconst calm" "[]" op1 7 "''share''" None None
      None None True False]
    CreateForUser_returns_record_or_raises[of "sconst outage" "[]" op1 7 "''share''" None None
      None None True False]
    u w share1_created
  show ?thesis by (simp add: share1_def key_def)
qed


section \<open>Properties of several calls\<close>

lemma TryClearBadge_cases:
  assumes "TryClearBadge fault now tbl uid device_id nid = (ok, tbl')"
  shows "ok \<longleftrightarrow> \<not> fault \<and> (uid, nid) \<notin> key ` set tbl"
    and "ok \<longrightarrow> (\<exists>n. tbl' = tbl @ [n] \<and> key n = (uid, nid) \<and> name n = Some ''clear_badges''
                    \<and> badge n = Some 0 \<and> sender_id n = Some uid
                    \<and> sender_device_id n = Some device_id \<and> timestamp n = Some now)"
    and "\<not> ok \<longrightarrow> tbl' = tbl"
  using assms
  by (auto simp: TryClearBadge_def TryUpdate_def Update_def Let_def Notification_def key_def
           split: if_splits)

lemma iteration_distinct:
  assumes "distinct (map key tbl)"
  shows "distinct (map key (snd (iteration io tbl operation uid nm payload activity viewpoint
                                   seq_num_pair inc_badge cr)))"
proof -
  let ?t1 = "others_write (before_read io) tbl"
  let ?t2 = "others_write (before_write io) ?t1"
  have d1: "distinct (map key ?t1)" using assms by (rule others_write_distinct)
  then have d2: "distinct (map key ?t2)" by (rule others_write_distinct)
  show ?thesis using d1 d2
    by (auto simp: iteration_def Let_def TryUpdate_def Update_def
             split: sum.splits prod.splits if_splits)
qed

lemma CreateForUser_distinct:
  assumes "CreateForUser env tbl operation uid nm payload activity viewpoint seq_num_pair inc_badge cr
             = Some (r, tbl')"
      and "distinct (map key tbl)"
  shows "distinct (map key tbl')"
proof -
  have "distinct (map key tbl) \<longrightarrow> distinct (map key (snd y))"
    if "CreateForUser env tbl operation uid nm payload activity viewpoint seq_num_pair inc_badge cr
          = Some y" for y
    using that
  proof (induction rule: CreateForUser_induct)
    case (Raised env tbl operation uid nm payload activity viewpoint seq_num_pair inc_badge cr e tbl')
    from iteration_distinct[of tbl "shd env" operation uid nm payload activity viewpoint
        seq_num_pair inc_badge cr] Raised
    show ?case by simp
  next
    case (Returned env tbl operation uid nm payload activity viewpoint seq_num_pair inc_badge cr n tbl')
    from iteration_distinct[of tbl "shd env" operation uid nm payload activity viewpoint
        seq_num_pair inc_badge cr] Returned
    show ?case by simp
  next
    case (Retry env tbl operation uid nm payload activity viewpoint seq_num_pair inc_badge cr tbl' y)
    from iteration_distinct[of tbl "shd env" operation uid nm payload activity viewpoint
        seq_num_pair inc_badge cr] Retry
    show ?case by simp
  qed
  from this[OF assms(1)] assms(2) show ?thesis by simp
qed

lemma calls_unique:
  assumes "calls rs tbl = Some (ns, tbl')" and "distinct (map key tbl)"
  shows "distinct (map key tbl') \<and> (\<exists>added. tbl' = tbl @ added)
       \<and> distinct (map key ns) \<and> set ns \<subseteq> set tbl' \<and> key ` set ns \<inter> key ` set tbl = {}"
  using assms
proof (induction rs arbitrary: tbl ns)
  case Nil
  then show ?case by simp
next
  case (Cons er rest)
  obtain env r where er: "er = (env, r)" by (cases er)
  from Cons.prems(1) er obtain res t where c: "call env tbl r = Some (res, t)"
    by (auto split: option.splits)
  from c have cfu: "CreateForUser env tbl (r_operation r) (r_user_id r) (r_name r) (r_invalidate r)
       (r_activity_id r) (r_viewpoint_id r) (r_seq_num_pair r) (r_inc_badge r)
       (r_consistent_read r) = Some (res, t)" by (simp add: call_def)
  from CreateForUser_distinct[OF cfu Cons.prems(2)] have dt: "distinct (map key t)" .
  from CreateForUser_result(1)[OF cfu] obtain a where ta: "t = tbl @ a" by blast
  show ?case
  proof (cases res)
    case (Inl e)
    with Cons.prems(1) er c have "calls rest t = Some (ns, tbl')" by simp
    from Cons.IH[OF this dt] ta show ?thesis by auto
  next
    case (Inr n)
    with Cons.prems(1) er c obtain ms where ms: "calls rest t = Some (ms, tbl')" "ns = n # ms"
      by (auto split: option.splits)
    from CreateForUser_result(2)[OF cfu] Inr have n: "n \<in> set t" "key n \<notin> key ` set tbl" by auto
    from Cons.IH[OF ms(1) dt] obtain b where
      ih: "distinct (map key tbl')" "tbl' = t @ b" "distinct (map key ms)" "set ms \<subseteq> set tbl'"
          "key ` set ms \<inter> key ` set t = {}" by blast
    from ih(5) n(1) have "key n \<notin> key ` set ms" by auto
    with ih ta n ms(2) show ?thesis by auto
  qed
qed

lemma distinct_ids_card:
  assumes "distinct (map key ns)"
  shows "card (notification_id ` {n \<in> set ns. user_id n = uid})
           = length (filter (\<lambda>n. user_id n = uid) ns)"
proof -
  let ?us = "filter (\<lambda>n. user_id n = uid) ns"
  from assms have "distinct (map key ?us)" by (rule distinct_map_filter)
  then have "inj_on key (set ?us)" and d: "distinct ?us" by (simp_all add: distinct_map)
  then have "inj_on notification_id (set ?us)"
    by (auto simp: inj_on_def key_def)
  with d have "distinct (map notification_id ?us)" by (simp add: distinct_map)
  from distinct_card[OF this] have "card (notification_id ` set ?us) = length ?us" by simp
  moreover have "set ?us = {n \<in> set ns. user_id n = uid}" by auto
  ultimately show ?thesis by simp
qed


lemma advance_cases:
  assumes "advance fault lg tbl r ph = (ph', tbl')"
  shows "(\<exists>n. ph = Writing n \<and> ph' = Finished (Inr n) \<and> key n \<notin> key ` set tbl
              \<and> tbl' = tbl @ [n])
       \<or> (tbl' = tbl \<and> (\<forall>n. ph' = Finished (Inr n) \<longrightarrow> ph = Finished (Inr n)))"
  using assms
  by (auto simp: advance_def TryUpdate_def Update_def Let_def
           split: phase.splits sum.splits if_splits)

lemma returned_append: "returned (xs @ ys) = returned xs @ returned ys"
  by (induction xs rule: returned.induct) simp_all

lemma returned_single:
  "returned [(r, ph)] = (case ph of Finished (Inr n) \<Rightarrow> [n] | _ \<Rightarrow> [])"
  by (auto split: phase.splits sum.splits)

lemma returned_start: "returned (start rs) = []"
  by (induction rs) (simp_all add: start_def)

lemma advance_invariant:
  assumes i: "i < length cs"
      and a: "advance fault lg tbl (fst (cs ! i)) (snd (cs ! i)) = (ph', tbl')"
      and inv: "distinct (map key tbl)" "distinct (map key (returned cs))"
               "set (returned cs) \<subseteq> set tbl"
  shows "distinct (map key tbl')"
    and "distinct (map key (returned (cs[i := (fst (cs ! i), ph')])))"
    and "set (returned (cs[i := (fst (cs ! i), ph')])) \<subseteq> set tbl'"
    and "\<exists>added. tbl' = tbl @ added"
proof -
  obtain r ph where c: "cs ! i = (r, ph)" by (cases "cs ! i")
  define xs where "xs = take i cs"
  define ys where "ys = drop (Suc i) cs"
  have cs: "cs = xs @ (r, ph) # ys"
    unfolding xs_def ys_def by (metis i c id_take_nth_drop)
  have lx: "length xs = i" using i by (simp add: xs_def)
  have cs': "cs[i := (fst (cs ! i), ph')] = xs @ (r, ph') # ys"
    unfolding c fst_conv by (subst cs) (simp add: lx[symmetric])
  have split3: "returned (xs @ c # ys) = returned xs @ returned [c] @ returned ys" for c
    using returned_append[of xs "[c] @ ys"] returned_append[of "[c]" ys] by simp
  have old: "returned cs = returned xs @ returned [(r, ph)] @ returned ys"
    by (subst cs) (rule split3)
  have new: "returned (cs[i := (fst (cs ! i), ph')])
               = returned xs @ returned [(r, ph')] @ returned ys"
    by (subst cs') (rule split3)
  from advance_cases[OF a[unfolded c fst_conv snd_conv]]
  have "distinct (map key tbl')
      \<and> distinct (map key (returned xs @ returned [(r, ph')] @ returned ys))
      \<and> set (returned xs @ returned [(r, ph')] @ returned ys) \<subseteq> set tbl'
      \<and> (\<exists>added. tbl' = tbl @ added)"
  proof
    assume "\<exists>n. ph = Writing n \<and> ph' = Finished (Inr n) \<and> key n \<notin> key ` set tbl
              \<and> tbl' = tbl @ [n]"
    then obtain n where n: "ph = Writing n" "ph' = Finished (Inr n)" "key n \<notin> key ` set tbl"
      "tbl' = tbl @ [n]" by blast
    from inv(2,3) old n(1) have
      d: "distinct (map key (returned xs @ returned ys))" and
      s: "set (returned xs @ returned ys) \<subseteq> set tbl" by simp_all
    from s n(3) have "key n \<notin> key ` set (returned xs @ returned ys)" by blast
    with d s n inv(1) show ?thesis by auto
  next
    assume b: "tbl' = tbl \<and> (\<forall>n. ph' = Finished (Inr n) \<longrightarrow> ph = Finished (Inr n))"
    have "returned [(r, ph')] = returned [(r, ph)] \<or> returned [(r, ph')] = []"
      using b by (auto simp: returned_single split: phase.splits sum.splits)
    then show ?thesis
    proof
      assume "returned [(r, ph')] = returned [(r, ph)]"
      with inv old b show ?thesis by simp
    next
      assume "returned [(r, ph')] = []"
      with inv old b show ?thesis by auto
    qed
  qed
  with new show "distinct (map key tbl')"
    and "distinct (map key (returned (cs[i := (fst (cs ! i), ph')])))"
    and "set (returned (cs[i := (fst (cs ! i), ph')])) \<subseteq> set tbl'"
    and "\<exists>added. tbl' = tbl @ added"
    by simp_all
qed

lemma run_invariant:
  assumes "run evs (cs, tbl) = (cs', tbl')"
      and "distinct (map key tbl)" "distinct (map key (returned cs))"
          "set (returned cs) \<subseteq> set tbl"
  shows "distinct (map key tbl') \<and> distinct (map key (returned cs'))
       \<and> set (returned cs') \<subseteq> set tbl' \<and> (\<exists>added. tbl' = tbl @ added)"
  using assms
proof (induction evs arbitrary: cs tbl)
  case Nil
  then show ?case by simp
next
  case (Cons ev evs)
  show ?case
  proof (cases ev)
    case (Advance i fault lg)
    show ?thesis
    proof (cases "i < length cs")
      case True
      obtain ph t where a: "advance fault lg tbl (fst (cs ! i)) (snd (cs ! i)) = (ph, t)"
        by (cases "advance fault lg tbl (fst (cs ! i)) (snd (cs ! i))")
      from Cons.prems(1) Advance True a
      have r: "run evs (cs[i := (fst (cs ! i), ph)], t) = (cs', tbl')" by simp
      from advance_invariant[OF True a Cons.prems(2,3,4)] obtain added where
        s: "distinct (map key t)" "distinct (map key (returned (cs[i := (fst (cs ! i), ph)])))"
           "set (returned (cs[i := (fst (cs ! i), ph)])) \<subseteq> set t" "t = tbl @ added"
        by blast
      from Cons.IH[OF r s(1,2,3)] s(4) show ?thesis by auto
    next
      case False
      with Cons.prems(1) Advance have "run evs (cs, tbl) = (cs', tbl')" by simp
      from Cons.IH[OF this Cons.prems(2,3,4)] show ?thesis .
    qed
  next
    case (ClearBadge fault now uid device_id nid)
    obtain ok t where c: "TryClearBadge fault now tbl uid device_id nid = (ok, t)"
      by (cases "TryClearBadge fault now tbl uid device_id nid")
    from Cons.prems(1) ClearBadge c have r: "run evs (cs, t) = (cs', tbl')" by simp
    from TryClearBadge_cases[OF c] Cons.prems(2,4)
    have s: "distinct (map key t)" "set (returned cs) \<subseteq> set t" "\<exists>added. t = tbl @ added"
      by (cases ok; auto)+
    from Cons.IH[OF r s(1) Cons.prems(3) s(2)] s(3) show ?thesis by auto
  qed
qed


text \<open>
  The two descriptions of the loop agree: an iteration is the read step of the call,
  followed by its write step, with the other writers acting before each.
\<close>

lemma iteration_as_advance:
  "iteration io tbl (r_operation r) (r_user_id r) (r_name r) (r_invalidate r) (r_activity_id r)
     (r_viewpoint_id r) (r_seq_num_pair r) (r_inc_badge r) cr =
   (let tbl1 = others_write (before_read io) tbl;
        (ph1, t1) = advance (query_fault io) (read_lag io) tbl1 r (Reading cr)
    in case ph1 of
         Writing n \<Rightarrow>
           (let tbl2 = others_write (before_write io) tbl1;
                (ph2, tbl3) = advance (write_fault io) lg tbl2 r ph1
            in case ph2 of Finished (Inr m) \<Rightarrow> (Returned m, tbl3) | _ \<Rightarrow> (Retry, tbl3))
       | Finished (Inl e) \<Rightarrow> (Raised e, tbl1)
       | _ \<Rightarrow> (Retry, tbl1))"
  by (auto simp: iteration_def advance_def Let_def split: sum.splits prod.splits)

lemma comment2_created_stale:
  "CreateForUser (sconst stale) [share1] op1 7 ''comment'' None None None None True False
     = Some (Inr comment2, [share1, comment2])"
proof -
  have "CreateForUser (sconst stale) [share1] op1 7 ''comment'' None None None None True False
     = CreateForUser (sconst stale) [share1] op1 7 ''comment'' None None None None True True"
    by (subst CreateForUser.simps)
       (simp add: eval_defs stale_def op1_def share1_def)
  then show ?thesis by (simp add: comment2_created_strong)
qed

lemma calls_example:
  "calls [(sconst calm, req_share), (sconst stale, req_comment)] []
     = Some ([share1, comment2], [share1, comment2])"
  by (simp add: call_def req_share_def req_comment_def share1_created comment2_created_stale)

lemma run_example:
  "run [Advance 0 False 0, Advance 1 False 0, Advance 0 False 0, Advance 1 False 0,
        Advance 1 False 0, Advance 1 False 0] (start [req_share, req_comment], [])
     = ([(req_share, Finished (Inr share1)), (req_comment, Finished (Inr comment2))],
        [share1, comment2])"
  by (simp add: start_def advance_def eval_defs req_share_def req_comment_def op1_def
        share1_def comment2_def)


section \<open>C1: one record per key\<close>

text \<open>
  Claim C1. Every write is a conditional create: \<open>_TryUpdate\<close> appends the record when no
  record has its key and the store does not fail, and leaves the table as it was
  otherwise. So a table with one record per \<open>(user_id, notification_id)\<close> stays so, and
  the records returned by the successful \<open>CreateForUser\<close> calls have pairwise different
  keys: for every user, N successful calls commit N distinct ids. This holds for calls
  made one after the other (\<open>calls\<close>, each under any behaviour of the store and of other
  writers) and for calls running concurrently under any schedule of their I/O steps
  (\<open>run\<close>, with \<open>TryClearBadge\<close> calls in between).
\<close>

theorem notification_ids_unique:
  "(\<forall>ok tbl'. TryUpdate fault tbl n = (ok, tbl') \<longrightarrow>
       (ok \<longleftrightarrow> \<not> fault \<and> key n \<notin> key ` set tbl) \<and> tbl' = (if ok then tbl @ [n] else tbl))
   \<and> (distinct (map key tbl) \<longrightarrow>
        (\<forall>ns tbl'. calls rs tbl = Some (ns, tbl') \<longrightarrow>
           distinct (map key tbl') \<and> set ns \<subseteq> set tbl' \<and> distinct (map key ns)
           \<and> (\<forall>uid. card (notification_id ` {m \<in> set ns. user_id m = uid})
                      = length (filter (\<lambda>m. user_id m = uid) ns))))
   \<and> (distinct (map key tbl) \<longrightarrow>
        (\<forall>cs' tbl'. run evs (start qs, tbl) = (cs', tbl') \<longrightarrow>
           distinct (map key tbl') \<and> set (returned cs') \<subseteq> set tbl'
           \<and> distinct (map key (returned cs'))
           \<and> (\<forall>uid. card (notification_id ` {m \<in> set (returned cs'). user_id m = uid})
                      = length (filter (\<lambda>m. user_id m = uid) (returned cs')))))"
proof (intro conjI allI impI)
  fix ok tbl'
  assume t: "TryUpdate fault tbl n = (ok, tbl')"
  from TryUpdate_cases[OF t]
  show "ok \<longleftrightarrow> \<not> fault \<and> key n \<notin> key ` set tbl" and "tbl' = (if ok then tbl @ [n] else tbl)"
    by simp_all
next
  fix ns tbl' uid
  assume d: "distinct (map key tbl)" and c: "calls rs tbl = Some (ns, tbl')"
  from calls_unique[OF c d]
  show "distinct (map key tbl')" and "set ns \<subseteq> set tbl'" and dn: "distinct (map key ns)"
    by simp_all
  from dn show "card (notification_id ` {m \<in> set ns. user_id m = uid})
                      = length (filter (\<lambda>m. user_id m = uid) ns)"
    by (rule distinct_ids_card)
next
  fix cs' tbl' uid
  assume d: "distinct (map key tbl)" and r: "run evs (start qs, tbl) = (cs', tbl')"
  from run_invariant[OF r d] returned_start[of qs]
  show "distinct (map key tbl')" and "set (returned cs') \<subseteq> set tbl'"
    and dn: "distinct (map key (returned cs'))"
    by simp_all
  from dn show "card (notification_id ` {m \<in> set (returned cs'). user_id m = uid})
                      = length (filter (\<lambda>m. user_id m = uid) (returned cs'))"
    by (rule distinct_ids_card)
qed

theorem notification_ids_unique_witness:
  "TryUpdate False [share1] comment1 = (False, [share1])
   \<and> distinct (map key ([] :: nat table))
   \<and> calls [(sconst calm, req_share), (sconst stale, req_comment)] []
        = Some ([share1, comment2], [share1, comment2])
   \<and> card (notification_id ` {m \<in> set [share1, comment2]. user_id m = 7}) = 2
   \<and> run [Advance 0 False 0, Advance 1 False 0, Advance 0 False 0, Advance 1 False 0,
           Advance 1 False 0, Advance 1 False 0] (start [req_share, req_comment], [])
        = ([(req_share, Finished (Inr share1)), (req_comment, Finished (Inr comment2))],
           [share1, comment2])
   \<and> distinct (map key
        (returned [(req_share, Finished (Inr share1)), (req_comment, Finished (Inr comment2))]))"
proof -
  have t: "TryUpdate False [share1] comment1 = (False, [share1])"
    by (simp add: eval_defs share1_def comment1_def)
  have d: "distinct (map key ([] :: nat table))" by simp
  have l: "length (filter (\<lambda>m. user_id m = 7) [share1, comment2]) = 2"
    by (simp add: share1_def comment2_def)
  from notification_ids_unique[of False "[share1]" comment1
      "[(sconst calm, req_share), (sconst stale, req_comment)]"
      "[Advance 0 False 0, Advance 1 False 0, Advance 0 False 0, Advance 1 False 0,
        Advance 1 False 0, Advance 1 False 0]" "[req_share, req_comment]"]
  have a: "\<forall>ok tbl'. TryUpdate False [share1] comment1 = (ok, tbl') \<longrightarrow>
       (ok \<longleftrightarrow> \<not> False \<and> key comment1 \<notin> key ` set [share1])
       \<and> tbl' = (if ok then [share1] @ [comment1] else [share1])"
    by blast
  from notification_ids_unique[of False "[]" comment1
      "[(sconst calm, req_share), (sconst stale, req_comment)]"
      "[Advance 0 False 0, Advance 1 False 0, Advance 0 False 0, Advance 1 False 0,
        Advance 1 False 0, Advance 1 False 0]" "[req_share, req_comment]"] d
  have b: "\<forall>ns tbl'. calls [(sconst calm, req_share), (sconst stale, req_comment)] []
              = Some (ns, tbl') \<longrightarrow>
           (\<forall>uid. card (notification_id ` {m \<in> set ns. user_id m = uid})
                      = length (filter (\<lambda>m. user_id m = uid) ns))"
    and c: "\<forall>cs' tbl'. run [Advance 0 False 0, Advance 1 False 0, Advance 0 False 0,
              Advance 1 False 0, Advance 1 False 0, Advance 1 False 0]
              (start [req_share, req_comment], []) = (cs', tbl') \<longrightarrow>
           distinct (map key (returned cs'))"
    by blast+
  from b calls_example l
  have "card (notification_id ` {m \<in> set [share1, comment2]. user_id m = 7}) = 2"
    by metis
  with t d calls_example run_example c show ?thesis by blast
qed

lemma others_write_all:
  assumes "distinct (map key ns)" and "key ` set ns \<inter> key ` set tbl = {}"
  shows "others_write ns tbl = tbl @ ns"
  using assms
proof (induction ns arbitrary: tbl)
  case Nil
  then show ?case by simp
next
  case (Cons n ns)
  from Cons.prems have t: "TryUpdate False tbl n = (True, tbl @ [n])"
    by (auto simp: TryUpdate_def Update_def)
  from Cons.prems have "key ` set ns \<inter> key ` set (tbl @ [n]) = {}" by auto
  with Cons.IH[of "tbl @ [n]"] Cons.prems(1) t show ?case by simp
qed

lemma QueryLast_as_scan:
  "QueryLast fault lg tbl uid cr =
     (case RangeQuery fault lg tbl uid None False cr of
        Inl e \<Rightarrow> Inl e
      | Inr rs \<Rightarrow> Inr (case rs of [] \<Rightarrow> None | r # _ \<Rightarrow> Some r))"
proof (cases fault)
  case True
  then show ?thesis by (simp add: QueryLast_def RangeQuery_def)
next
  case False
  define ds where "ds = rev (sort_key notification_id
                               (filter (\<lambda>n. user_id n = uid) (visible tbl lg cr)))"
  have "(if 0 < length (take (Suc 0) ds) then Some (take (Suc 0) ds ! 0) else None)
          = (case ds of [] \<Rightarrow> None | r # _ \<Rightarrow> Some r)"
    by (cases ds) simp_all
  with False show ?thesis
    by (simp add: QueryLast_def RangeQuery_def Let_def ds_def[symmetric] del: length_greater_0_conv)
qed

lemma QueryLast_highest_of_three:
  assumes "cr \<or> lg = 0"
      and "notification_id ` {r \<in> set tbl. user_id r = uid} = {1, 2, 3}"
  shows "\<exists>l. QueryLast False lg tbl uid cr = Inr (Some l) \<and> l \<in> set tbl \<and> user_id l = uid
            \<and> notification_id l = 3"
proof -
  have vis: "visible tbl lg cr = tbl" using assms(1) by (rule visible_fresh)
  from assms(2) obtain r3 where r3: "r3 \<in> set tbl" "user_id r3 = uid" "notification_id r3 = 3"
    by (metis (mono_tags, lifting) imageE insertCI mem_Collect_eq)
  have "QueryLast False lg tbl uid cr \<noteq> Inr None"
    using QueryLast_None[of False lg tbl uid cr] vis r3 by auto
  then obtain l where l: "QueryLast False lg tbl uid cr = Inr (Some l)"
    by (auto simp: QueryLast_eq Let_def split: if_splits)
  from QueryLast_Some[OF l] vis have m: "l \<in> set tbl" "user_id l = uid"
    "\<forall>r\<in>set tbl. user_id r = uid \<longrightarrow> notification_id r \<le> notification_id l" by simp_all
  from m(3) r3 have "3 \<le> notification_id l" by auto
  moreover from m(1,2) assms(2) have "notification_id l \<in> {1, 2, 3}" by blast
  ultimately have "notification_id l = 3" by auto
  with l m show ?thesis by blast
qed

section \<open>C5: the last notification\<close>

text \<open>
  Claim C5. \<open>QueryLast\<close> is the first record of the descending scan of the user's range
  (a scan with limit 1). It answers absent when the user has no record; a record it
  answers is a record of the user in the table with the highest id among those the read
  sees. When the read is up to date (a consistent read, or no lag) and the user's records
  have the ids 1, 2 and 3, it answers the record with id 3, in whatever order the three
  were inserted. \<open>QueryLast\<close> returns its answer only, and the step of a call that runs
  it leaves the table as it was.
\<close>

theorem QueryLast_returns_highest:
  "QueryLast fault lg tbl uid cr =
     (case RangeQuery fault lg tbl uid None False cr of
        Inl e \<Rightarrow> Inl e
      | Inr rs \<Rightarrow> Inr (case rs of [] \<Rightarrow> None | r # _ \<Rightarrow> Some r))
   \<and> (\<not> fault \<and> (\<forall>r\<in>set tbl. user_id r \<noteq> uid) \<longrightarrow> QueryLast fault lg tbl uid cr = Inr None)
   \<and> (\<forall>l. QueryLast fault lg tbl uid cr = Inr (Some l) \<longrightarrow>
          l \<in> set tbl \<and> user_id l = uid
          \<and> (\<forall>r\<in>set (visible tbl lg cr). user_id r = uid \<longrightarrow> notification_id r \<le> notification_id l))
   \<and> (\<not> fault \<and> (cr \<or> lg = 0)
        \<and> notification_id ` {r \<in> set tbl. user_id r = uid} = {1, 2, 3} \<longrightarrow>
        (\<exists>l. QueryLast fault lg tbl uid cr = Inr (Some l) \<and> l \<in> set tbl \<and> user_id l = uid
              \<and> notification_id l = 3))
   \<and> (\<not> fault \<and> (cr \<or> lg = 0) \<and> (\<forall>r\<in>set tbl0. user_id r \<noteq> uid)
        \<and> user_id r1 = uid \<and> user_id r2 = uid \<and> user_id r3 = uid
        \<and> notification_id r1 = 1 \<and> notification_id r2 = 2 \<and> notification_id r3 = 3
        \<and> distinct ins \<and> set ins = {r1, r2, r3} \<longrightarrow>
        QueryLast fault lg (others_write ins tbl0) uid cr = Inr (Some r3))
   \<and> snd (advance fault lg tbl req (Reading cr)) = tbl"
proof -
  have A: "QueryLast fault lg tbl uid cr =
     (case RangeQuery fault lg tbl uid None False cr of
        Inl e \<Rightarrow> Inl e
      | Inr rs \<Rightarrow> Inr (case rs of [] \<Rightarrow> None | r # _ \<Rightarrow> Some r))"
    by (rule QueryLast_as_scan)
  have B: "\<not> fault \<and> (\<forall>r\<in>set tbl. user_id r \<noteq> uid) \<longrightarrow> QueryLast fault lg tbl uid cr = Inr None"
    using QueryLast_empty_partition[of tbl uid lg cr] by simp
  have C: "\<forall>l. QueryLast fault lg tbl uid cr = Inr (Some l) \<longrightarrow>
          l \<in> set tbl \<and> user_id l = uid
          \<and> (\<forall>r\<in>set (visible tbl lg cr). user_id r = uid \<longrightarrow> notification_id r \<le> notification_id l)"
  proof (intro allI impI)
    fix l
    assume l: "QueryLast fault lg tbl uid cr = Inr (Some l)"
    from QueryLast_Some[OF l] visible_subset[of tbl lg cr]
    show "l \<in> set tbl \<and> user_id l = uid
          \<and> (\<forall>r\<in>set (visible tbl lg cr). user_id r = uid \<longrightarrow> notification_id r \<le> notification_id l)"
      by blast
  qed
  have D: "\<not> fault \<and> (cr \<or> lg = 0)
        \<and> notification_id ` {r \<in> set tbl. user_id r = uid} = {1, 2, 3} \<longrightarrow>
        (\<exists>l. QueryLast fault lg tbl uid cr = Inr (Some l) \<and> l \<in> set tbl \<and> user_id l = uid
              \<and> notification_id l = 3)"
    using QueryLast_highest_of_three[of cr lg tbl uid] by simp
  have E: "\<not> fault \<and> (cr \<or> lg = 0) \<and> (\<forall>r\<in>set tbl0. user_id r \<noteq> uid)
        \<and> user_id r1 = uid \<and> user_id r2 = uid \<and> user_id r3 = uid
        \<and> notification_id r1 = 1 \<and> notification_id r2 = 2 \<and> notification_id r3 = 3
        \<and> distinct ins \<and> set ins = {r1, r2, r3} \<longrightarrow>
        QueryLast fault lg (others_write ins tbl0) uid cr = Inr (Some r3)"
  proof
    assume h: "\<not> fault \<and> (cr \<or> lg = 0) \<and> (\<forall>r\<in>set tbl0. user_id r \<noteq> uid)
        \<and> user_id r1 = uid \<and> user_id r2 = uid \<and> user_id r3 = uid
        \<and> notification_id r1 = 1 \<and> notification_id r2 = 2 \<and> notification_id r3 = 3
        \<and> distinct ins \<and> set ins = {r1, r2, r3}"
    then have inj: "inj_on key (set ins)" by (auto simp: inj_on_def key_def)
    with h have dk: "distinct (map key ins)" by (simp add: distinct_map)
    from h have "key ` set ins \<inter> key ` set tbl0 = {}" by (auto simp: key_def)
    from others_write_all[OF dk this] have t: "others_write ins tbl0 = tbl0 @ ins" .
    from h have "{r \<in> set (tbl0 @ ins). user_id r = uid} = {r1, r2, r3}" by auto
    then have "notification_id ` {r \<in> set (tbl0 @ ins). user_id r = uid} = {1, 2, 3}"
      using h by simp
    from QueryLast_highest_of_three[OF _ this, of cr lg] h obtain l where
      l: "QueryLast False lg (tbl0 @ ins) uid cr = Inr (Some l)" "l \<in> set (tbl0 @ ins)"
         "user_id l = uid" "notification_id l = 3" by blast
    from l(2,3,4) h have "l = r3" by auto
    with l(1) t h show "QueryLast fault lg (others_write ins tbl0) uid cr = Inr (Some r3)" by simp
  qed
  have F: "snd (advance fault lg tbl req (Reading cr)) = tbl"
    by (simp add: advance_def split: sum.splits)
  show ?thesis
    by (rule conjI, rule A, rule conjI, rule B, rule conjI, rule C, rule conjI, rule D,
        rule conjI, rule E, rule F)
qed

theorem QueryLast_returns_highest_witness:
  "7 \<notin> user_id ` set [foreign1]
   \<and> QueryLast False 0 [foreign1] 7 False = Inr None
   \<and> distinct [comment2, like3, share1] \<and> set [comment2, like3, share1] = {share1, comment2, like3}
   \<and> others_write [comment2, like3, share1] [foreign1] = [foreign1, comment2, like3, share1]
   \<and> QueryLast False 0 [foreign1, comment2, like3, share1] 7 False = Inr (Some like3)
   \<and> notification_id like3 = 3"
proof -
  have e: "\<forall>r\<in>set [foreign1]. user_id r \<noteq> 7" by (simp add: foreign1_def)
  have d: "distinct [comment2, like3, share1]"
    by (simp add: share1_def comment2_def like3_def)
  have s: "set [comment2, like3, share1] = {share1, comment2, like3}" by auto
  have o: "others_write [comment2, like3, share1] [foreign1] = [foreign1, comment2, like3, share1]"
    by (simp add: TryUpdate_def Update_def key_def share1_def comment2_def like3_def foreign1_def)
  have f: "user_id share1 = 7 \<and> user_id comment2 = 7 \<and> user_id like3 = 7
      \<and> notification_id share1 = 1 \<and> notification_id comment2 = 2 \<and> notification_id like3 = 3"
    by (simp add: share1_def comment2_def like3_def)
  from QueryLast_returns_highest[of False 0 "[foreign1]" 7 False "[foreign1]" share1 comment2 like3
      "[comment2, like3, share1]" req_share] e d s f
  have "QueryLast False 0 [foreign1] 7 False = Inr None"
    and "QueryLast False 0 (others_write [comment2, like3, share1] [foreign1]) 7 False
           = Inr (Some like3)"
    by blast+
  with e d s o f show ?thesis by simp
qed

section \<open>C7: clearing the badge\<close>

text \<open>
  Claim C7. \<open>TryClearBadge\<close> makes one conditional create of a record named
  \<open>clear_badges\<close> with badge 0 and returns its outcome: true exactly when the record was
  committed by this call (the key was free and the store did not fail), false with the
  table unchanged otherwise, in particular when a record already has that id. Of two
  calls with the same user and id, on a table where the id is free and with a store that
  serves the first write, the first returns true, the second returns false, and one
  record with that key exists afterwards.
\<close>

theorem TryClearBadge_single_attempt:
  "(\<forall>ok tbl'. TryClearBadge fault now tbl uid device_id nid = (ok, tbl') \<longrightarrow>
       (ok \<longleftrightarrow> \<not> fault \<and> (uid, nid) \<notin> key ` set tbl)
     \<and> (ok \<longrightarrow> (\<exists>n. tbl' = tbl @ [n] \<and> key n = (uid, nid) \<and> name n = Some ''clear_badges''
                    \<and> badge n = Some 0 \<and> sender_id n = Some uid
                    \<and> sender_device_id n = Some device_id \<and> timestamp n = Some now))
     \<and> (\<not> ok \<longrightarrow> tbl' = tbl))
   \<and> ((uid, nid) \<in> key ` set tbl \<longrightarrow>
        TryClearBadge fault now tbl uid device_id nid = (False, tbl))
   \<and> ((uid, nid) \<notin> key ` set tbl \<longrightarrow>
        (\<exists>t1. TryClearBadge False now tbl uid device_id nid = (True, t1)
             \<and> TryClearBadge fault2 now2 t1 uid device_id2 nid = (False, t1)
             \<and> length (filter (\<lambda>r. key r = (uid, nid)) t1) = 1))"
proof -
  have A: "\<forall>ok tbl'. TryClearBadge fault now tbl uid device_id nid = (ok, tbl') \<longrightarrow>
       (ok \<longleftrightarrow> \<not> fault \<and> (uid, nid) \<notin> key ` set tbl)
     \<and> (ok \<longrightarrow> (\<exists>n. tbl' = tbl @ [n] \<and> key n = (uid, nid) \<and> name n = Some ''clear_badges''
                    \<and> badge n = Some 0 \<and> sender_id n = Some uid
                    \<and> sender_device_id n = Some device_id \<and> timestamp n = Some now))
     \<and> (\<not> ok \<longrightarrow> tbl' = tbl)"
  proof (intro allI impI)
    fix ok tbl'
    assume c: "TryClearBadge fault now tbl uid device_id nid = (ok, tbl')"
    from TryClearBadge_cases[OF c]
    show "(ok \<longleftrightarrow> \<not> fault \<and> (uid, nid) \<notin> key ` set tbl)
     \<and> (ok \<longrightarrow> (\<exists>n. tbl' = tbl @ [n] \<and> key n = (uid, nid) \<and> name n = Some ''clear_badges''
                    \<and> badge n = Some 0 \<and> sender_id n = Some uid
                    \<and> sender_device_id n = Some device_id \<and> timestamp n = Some now))
     \<and> (\<not> ok \<longrightarrow> tbl' = tbl)"
      by blast
  qed
  have B: "(uid, nid) \<in> key ` set tbl \<longrightarrow>
        TryClearBadge fault now tbl uid device_id nid = (False, tbl)"
  proof
    assume k: "(uid, nid) \<in> key ` set tbl"
    obtain ok t where c: "TryClearBadge fault now tbl uid device_id nid = (ok, t)"
      by (cases "TryClearBadge fault now tbl uid device_id nid")
    from TryClearBadge_cases(1,3)[OF c] k c
    show "TryClearBadge fault now tbl uid device_id nid = (False, tbl)" by simp
  qed
  have C: "(uid, nid) \<notin> key ` set tbl \<longrightarrow>
        (\<exists>t1. TryClearBadge False now tbl uid device_id nid = (True, t1)
             \<and> TryClearBadge fault2 now2 t1 uid device_id2 nid = (False, t1)
             \<and> length (filter (\<lambda>r. key r = (uid, nid)) t1) = 1)"
  proof
    assume k: "(uid, nid) \<notin> key ` set tbl"
    obtain ok t1 where c1: "TryClearBadge False now tbl uid device_id nid = (ok, t1)"
      by (cases "TryClearBadge False now tbl uid device_id nid")
    from TryClearBadge_cases(1,2)[OF c1] k obtain n where
      ok: ok and n: "t1 = tbl @ [n]" "key n = (uid, nid)" by auto
    obtain ok2 t2 where c2: "TryClearBadge fault2 now2 t1 uid device_id2 nid = (ok2, t2)"
      by (cases "TryClearBadge fault2 now2 t1 uid device_id2 nid")
    from n have "(uid, nid) \<in> key ` set t1" by force
    with TryClearBadge_cases(1,3)[OF c2] have "\<not> ok2" "t2 = t1" by simp_all
    moreover from k have "\<forall>r\<in>set tbl. key r \<noteq> (uid, nid)" by force
    then have "filter (\<lambda>r. key r = (uid, nid)) tbl = []"
      by (simp add: filter_empty_conv)
    then have "length (filter (\<lambda>r. key r = (uid, nid)) t1) = 1" using n by simp
    ultimately show "\<exists>t1. TryClearBadge False now tbl uid device_id nid = (True, t1)
             \<and> TryClearBadge fault2 now2 t1 uid device_id2 nid = (False, t1)
             \<and> length (filter (\<lambda>r. key r = (uid, nid)) t1) = 1"
      using c1 c2 ok by auto
  qed
  show ?thesis by (rule conjI, rule A, rule conjI, rule B, rule C)
qed

theorem TryClearBadge_single_attempt_witness:
  "(7, 5) \<notin> key ` set [share1, comment2]
   \<and> TryClearBadge False 200 [share1, comment2] 7 3 5 = (True, [share1, comment2, clear5])
   \<and> (7, 5) \<in> key ` set [share1, comment2, clear5]
   \<and> TryClearBadge False 300 [share1, comment2, clear5] 7 4 5 = (False, [share1, comment2, clear5])
   \<and> length (filter (\<lambda>r. key r = (7, 5)) [share1, comment2, clear5]) = 1"
proof -
  have k: "(7, 5) \<notin> key ` set [share1, comment2]"
    by (simp add: key_def share1_def comment2_def)
  have k': "(7, 5) \<in> key ` set [share1, comment2, clear5]"
    by (simp add: key_def clear5_def)
  have c: "TryClearBadge False 200 [share1, comment2] 7 3 5 = (True, [share1, comment2, clear5])"
    by (simp add: TryClearBadge_def eval_defs share1_def comment2_def clear5_def)
  from TryClearBadge_single_attempt[of False 200 "[share1, comment2]" 7 3 5 False 300 4] k c
  have "TryClearBadge False 300 [share1, comment2, clear5] 7 4 5 = (False, [share1, comment2, clear5])
      \<and> length (filter (\<lambda>r. key r = (7, 5)) [share1, comment2, clear5]) = 1"
    by auto
  with k k' c show ?thesis by simp
qed


section \<open>Properties of the JSON codec\<close>





















lemma skip_ws_stops: "stops rest \<Longrightarrow> skip_ws rest = rest"
  by (cases rest) (auto simp: stops_def skip_ws_def is_ws_def)






















section \<open>C6: the invalidation round trip\<close>




end
